theory Spec2Isabelle
  imports Complex_Main "HOL-Library.Product_Lexorder"
begin

section \<open>Python values shared by the modules\<close>

text \<open>
  The exceptions the modelled code can raise. A fallible function returns
  \<open>error + 'a\<close>, with \<open>Inl\<close> for the exception that propagates to the caller.
  \<open>RuntimeError\<close> stands for the errors torch raises on a bad shape or size.
\<close>

datatype error =
  KeyError | ValueError | IndexError | TypeError | AttributeError
  | ZeroDivisionError | RuntimeError

text \<open>\<open>d[k]\<close> on a dict: KeyError when the key is missing.\<close>

definition getitem :: "('k \<rightharpoonup> 'v) \<Rightarrow> 'k \<Rightarrow> error + 'v" where
  "getitem d k = (case d k of None \<Rightarrow> Inl KeyError | Some x \<Rightarrow> Inr x)"

text \<open>\<open>xs[i]\<close> on a list with a non-negative index: IndexError out of range.\<close>

definition index_list :: "'a list \<Rightarrow> nat \<Rightarrow> error + 'a" where
  "index_list xs i = (if i < length xs then Inr (xs ! i) else Inl IndexError)"

text \<open>\<open>str(n)\<close> for a non-negative integer, as the f-strings of \<open>_from_file\<close> print it.\<close>

definition digit_char :: "nat \<Rightarrow> char" where
  "digit_char n = ''0123456789'' ! (n mod 10)"

function str_nat :: "nat \<Rightarrow> string" where
  "str_nat n = (if n < 10 then [digit_char n] else str_nat (n div 10) @ [digit_char n])"
  by pat_completeness auto
termination
  by (relation "measure id") auto

declare str_nat.simps [simp del]

text \<open>
  \<open>s.split()\<close>: the maximal runs of non-whitespace characters. The text is taken to be
  ASCII, whose whitespace characters for \<open>str.isspace\<close> are these ten.
\<close>

definition is_space :: "char \<Rightarrow> bool" where
  "is_space c = (c \<in> set [CHR '' '', CHR 0x09, CHR 0x0A, CHR 0x0B, CHR 0x0C, CHR 0x0D,
                           CHR 0x1C, CHR 0x1D, CHR 0x1E, CHR 0x1F])"

fun words_from :: "string \<Rightarrow> string \<Rightarrow> string list" where
  "words_from cur [] = (if cur = [] then [] else [cur])"
| "words_from cur (c # cs) =
     (if is_space c then (if cur = [] then words_from [] cs else cur # words_from [] cs)
      else words_from (cur @ [c]) cs)"

definition split_ws :: "string \<Rightarrow> string list" where
  "split_ws s = words_from [] s"

section \<open>manager.py: Vocab\<close>

text \<open>
  \<open>num_to_word\<close> is the list of tokens (index = id), \<open>word_to_num\<close> the dict from
  token to id, \<open>decoding_size\<close> the attribute \<open>_decoding_size\<close> (None until a file
  is loaded).
\<close>

record Vocab =
  num_to_word :: "string list"
  word_to_num :: "string \<rightharpoonup> nat"
  decoding_size :: "int option"

text \<open>\<open>Vocab()\<close> with no file.\<close>

definition Vocab_init :: Vocab where
  "Vocab_init = \<lparr>num_to_word = [], word_to_num = Map.empty, decoding_size = None\<rparr>"

text \<open>\<open>size()\<close> and \<open>size(decoding=True)\<close>.\<close>

definition size_vocab :: "Vocab \<Rightarrow> nat" where
  "size_vocab v = length (num_to_word v)"

definition size_decoding :: "Vocab \<Rightarrow> int option" where
  "size_decoding v = decoding_size v"

text \<open>
  \<open>add\<close>: the assignment \<open>word_to_num[word] = size()\<close> in the \<open>try\<close> cannot raise, so the
  \<open>else\<close> branch always runs: the id of the word is overwritten with the current size and
  the word is appended once more.
\<close>

definition add :: "Vocab \<Rightarrow> string \<Rightarrow> Vocab" where
  "add v word = v\<lparr>word_to_num := (word_to_num v)(word \<mapsto> size_vocab v),
                  num_to_word := num_to_word v @ [word]\<rparr>"

text \<open>
  The four properties share one shape: read \<open>word_to_num[w]\<close> in a \<open>try\<close>; on ValueError
  add the token and read again; any other exception propagates. The result carries the
  vocabulary as the property leaves it.
\<close>

definition control_token :: "string \<Rightarrow> Vocab \<Rightarrow> error + (nat \<times> Vocab)" where
  "control_token w v =
     (case getitem (word_to_num v) w of
        Inr n \<Rightarrow> Inr (n, v)
      | Inl e \<Rightarrow>
          if e = ValueError then
            (let v' = add v w in
             case getitem (word_to_num v') w of Inl e' \<Rightarrow> Inl e' | Inr n \<Rightarrow> Inr (n, v'))
          else Inl e)"

definition UNK :: "Vocab \<Rightarrow> error + (nat \<times> Vocab)" where
  "UNK = control_token ''<UNK>''"

definition BOS :: "Vocab \<Rightarrow> error + (nat \<times> Vocab)" where
  "BOS = control_token ''<BOS>''"

definition EOS :: "Vocab \<Rightarrow> error + (nat \<times> Vocab)" where
  "EOS = control_token ''<EOS>''"

definition PAD :: "Vocab \<Rightarrow> error + (nat \<times> Vocab)" where
  "PAD = control_token ''<PAD>''"

text \<open>
  \<open>_from_file\<close>. The file is its header line \<open>#<start>:<end>\<close>, taken already parsed
  into the two integers, and the lines after it. The first loop runs
  \<open>8 - decoding_size % 8\<close> times (between 1 and 8), and \<open>i\<close> keeps its last value.
\<close>

record vocab_file =
  range_start :: int
  range_end :: int
  token_lines :: "string list"

definition pad_token :: "nat \<Rightarrow> string" where
  "pad_token k = ''<PAD '' @ str_nat k @ ''>''"

fun add_lines :: "Vocab \<Rightarrow> string list \<Rightarrow> error + Vocab" where
  "add_lines v [] = Inr v"
| "add_lines v (line # rest) =
     (case index_list (split_ws line) 0 of
        Inl e \<Rightarrow> Inl e
      | Inr w \<Rightarrow> add_lines (add v w) rest)"

definition from_file :: "Vocab \<Rightarrow> vocab_file \<Rightarrow> error + Vocab" where
  "from_file v f =
     (let d = range_end f - range_start f;
          n = nat (8 - d mod 8);
          v1 = fold (\<lambda>i v. add v (pad_token i)) [0..<n] v;
          i = n - 1;
          d' = d + (if i \<noteq> 0 then int i + 1 else 0)
      in case add_lines v1 (token_lines f) of
           Inl e \<Rightarrow> Inl e
         | Inr v2 \<Rightarrow>
             let m = 8 - size_vocab v2 mod 8;
                 v3 = fold (\<lambda>j v. add v (pad_token (i + j))) [0..<m] v2
             in Inr (v3\<lparr>decoding_size := Some d'\<rparr>))"

text \<open>\<open>Vocab(vocab_file)\<close>.\<close>

definition Vocab_load :: "vocab_file \<Rightarrow> error + Vocab" where
  "Vocab_load f = from_file Vocab_init f"

text \<open>
  \<open>numberize\<close>: a word missing from \<open>word_to_num\<close> (KeyError) gets the id the \<open>UNK\<close>
  property returns. Tensors of ids and lists of ids are both lists of naturals.
\<close>

fun numberize_from :: "Vocab \<Rightarrow> string list \<Rightarrow> nat list \<Rightarrow> error + (nat list \<times> Vocab)" where
  "numberize_from v [] nums = Inr (nums, v)"
| "numberize_from v (word # rest) nums =
     (case getitem (word_to_num v) word of
        Inr n \<Rightarrow> numberize_from v rest (nums @ [n])
      | Inl e \<Rightarrow>
          if e = KeyError then
            (case UNK v of
               Inl e' \<Rightarrow> Inl e'
             | Inr (n, v') \<Rightarrow> numberize_from v' rest (nums @ [n]))
          else Inl e)"

definition numberize :: "Vocab \<Rightarrow> string list \<Rightarrow> error + (nat list \<times> Vocab)" where
  "numberize v ws = numberize_from v ws []"

text \<open>
  \<open>nums.index(x)\<close>: the first position of \<open>x\<close>, ValueError when it is absent.
\<close>

fun index_of :: "nat list \<Rightarrow> nat \<Rightarrow> error + nat" where
  "index_of [] x = Inl ValueError"
| "index_of (y # ys) x =
     (if y = x then Inr 0
      else case index_of ys x of Inl e \<Rightarrow> Inl e | Inr k \<Rightarrow> Inr (Suc k))"

text \<open>\<open>[self.num_to_word[num] for num in nums]\<close>.\<close>

fun lookup_words :: "Vocab \<Rightarrow> nat list \<Rightarrow> error + string list" where
  "lookup_words v [] = Inr []"
| "lookup_words v (n # ns) =
     (case index_list (num_to_word v) n of
        Inl e \<Rightarrow> Inl e
      | Inr w \<Rightarrow> (case lookup_words v ns of Inl e \<Rightarrow> Inl e | Inr ws \<Rightarrow> Inr (w # ws)))"

text \<open>
  \<open>denumberize\<close>: each bound is computed in a \<open>try\<close> whose body reads the property
  and calls \<open>index\<close>; a ValueError from the body selects the default bound (0, or the
  length), any other exception propagates.
\<close>

definition denumberize :: "Vocab \<Rightarrow> nat list \<Rightarrow> bool \<Rightarrow> error + (string list \<times> Vocab)" where
  "denumberize v nums verbatim =
     (if verbatim then
        (case lookup_words v nums of Inl e \<Rightarrow> Inl e | Inr ws \<Rightarrow> Inr (ws, v))
      else
        (case (case BOS v of
                 Inl e \<Rightarrow> if e = ValueError then Inr (0, v) else Inl e
               | Inr (bos, v1) \<Rightarrow>
                   (case index_of nums bos of
                      Inl e \<Rightarrow> if e = ValueError then Inr (0, v1) else Inl e
                    | Inr k \<Rightarrow> Inr (k + 1, v1))) of
           Inl e \<Rightarrow> Inl e
         | Inr (start, v1) \<Rightarrow>
             (case (case EOS v1 of
                      Inl e \<Rightarrow> if e = ValueError then Inr (length nums, v1) else Inl e
                    | Inr (eos, v2) \<Rightarrow>
                        (case index_of nums eos of
                           Inl e \<Rightarrow> if e = ValueError then Inr (length nums, v2) else Inl e
                         | Inr k \<Rightarrow> Inr (k, v2))) of
                Inl e \<Rightarrow> Inl e
              | Inr (end, v2) \<Rightarrow>
                  (case lookup_words v2 (drop start (take end nums)) of
                     Inl e \<Rightarrow> Inl e
                   | Inr ws \<Rightarrow> Inr (ws, v2)))))"

section \<open>decoder.py\<close>

text \<open>
  Floating-point scores are modelled as exact rationals. The transformer is outside the
  repository's decoding code: a \<open>model\<close> maps the source encodings, the source mask and
  one target prefix to the row of log-probabilities that \<open>model.decode\<close>, the last
  position, \<open>model.out_embed(inverse=True)\<close> and \<open>log_softmax\<close> produce for that
  prefix. The rows of a batched call are the rows of its prefixes; the causal mask
  \<open>tgt_mask[:, :i, :i]\<close> passed along is determined by the length of the prefix.
\<close>

type_synonym ('e, 'm) model = "'e \<Rightarrow> 'm \<Rightarrow> nat list \<Rightarrow> rat list"

text \<open>\<open>triu_mask(size)\<close>, of shape [1, size, size]: True on and below the diagonal.\<close>

definition triu_mask :: "nat \<Rightarrow> bool list list list" where
  "triu_mask n = [map (\<lambda>r. map (\<lambda>c. c \<le> r) [0..<n]) [0..<n] ]"

text \<open>
  \<open>argmax\<close>: the index of the first maximal value; on an empty row torch raises
  IndexError.
\<close>

fun argmax_from :: "rat list \<Rightarrow> nat \<Rightarrow> nat \<Rightarrow> rat \<Rightarrow> nat" where
  "argmax_from [] k best bv = best"
| "argmax_from (x # xs) k best bv =
     (if bv < x then argmax_from xs (Suc k) k x else argmax_from xs (Suc k) best bv)"

definition argmax :: "rat list \<Rightarrow> error + nat" where
  "argmax xs = (case xs of [] \<Rightarrow> Inl IndexError | x # rest \<Rightarrow> Inr (argmax_from rest 1 0 x))"

text \<open>
  \<open>greedy_search\<close>. The loop variable runs over \<open>range(1, max_length)\<close>; the loop
  leaves at the first EOS. The path starts filled with the id of BOS.
\<close>

function greedy_loop ::
  "('e, 'm) model \<Rightarrow> 'e \<Rightarrow> 'm \<Rightarrow> nat \<Rightarrow> Vocab \<Rightarrow> nat \<Rightarrow> nat list \<Rightarrow> error + (nat list \<times> Vocab)"
where
  "greedy_loop mdl src_encs src_mask max_len v i path =
     (if i < max_len then
        (case argmax (mdl src_encs src_mask (take i path)) of
           Inl e \<Rightarrow> Inl e
         | Inr tok \<Rightarrow>
             (let path' = path[i := tok] in
              case EOS v of
                Inl e \<Rightarrow> Inl e
              | Inr (eos, v') \<Rightarrow>
                  if path' ! i = eos then Inr (path', v')
                  else greedy_loop mdl src_encs src_mask max_len v' (Suc i) path'))
      else Inr (path, v))"
  by pat_completeness auto
termination
  by (relation "measure (\<lambda>(mdl, src_encs, src_mask, max_len, v, i, path). max_len - i)") auto

declare greedy_loop.simps [simp del]

definition greedy_search ::
  "('e, 'm) model \<Rightarrow> Vocab \<Rightarrow> 'e \<Rightarrow> 'm \<Rightarrow> nat \<Rightarrow> error + (nat list \<times> Vocab)"
where
  "greedy_search mdl v src_encs src_mask max_len =
     (case BOS v of
        Inl e \<Rightarrow> Inl e
      | Inr (bos, v') \<Rightarrow> greedy_loop mdl src_encs src_mask max_len v' 1 (replicate max_len bos))"

text \<open>
  Helpers for the tensor operations of \<open>beam_search\<close>: \<open>xs[mask]\<close>, \<open>xs[mask] = vals\<close>
  (the values go to the selected positions in order; torch raises when their number is
  not the number of selected positions), and \<open>topk\<close>, which returns the \<open>k\<close> largest
  values in descending order with their indices and raises when \<open>k\<close> exceeds the number
  of values. torch does not fix the order of equal values; the model takes them by
  ascending index, so on ties the indices it selects may differ from those of a run.
  The values it selects, and so their maximum, do not depend on that order.
\<close>

definition select :: "bool list \<Rightarrow> 'a list \<Rightarrow> 'a list" where
  "select msk xs = map snd (filter fst (zip msk xs))"

fun put_where :: "bool list \<Rightarrow> 'a list \<Rightarrow> 'a list \<Rightarrow> 'a list" where
  "put_where (a # as) (x # xs) vals =
     (if a then (case vals of [] \<Rightarrow> x # put_where as xs [] | y # ys \<Rightarrow> y # put_where as xs ys)
      else x # put_where as xs vals)"
| "put_where as xs vals = xs"

definition assign_where :: "bool list \<Rightarrow> 'a list \<Rightarrow> 'a list \<Rightarrow> error + 'a list" where
  "assign_where msk xs vals =
     (if length vals = length (select msk xs) then Inr (put_where msk xs vals)
      else Inl RuntimeError)"

definition count_nonzero :: "bool list \<Rightarrow> nat" where
  "count_nonzero msk = length (filter id msk)"

fun insert_desc :: "rat \<times> nat \<Rightarrow> (rat \<times> nat) list \<Rightarrow> (rat \<times> nat) list" where
  "insert_desc x [] = [x]"
| "insert_desc x (y # ys) = (if fst x \<le> fst y then y # insert_desc x ys else x # y # ys)"

definition topk :: "rat list \<Rightarrow> nat \<Rightarrow> error + (rat list \<times> nat list)" where
  "topk xs k =
     (if length xs < k then Inl RuntimeError
      else (let best = take k (fold insert_desc (zip xs [0..<length xs]) [])
            in Inr (map fst best, map snd best)))"

text \<open>\<open>topv.max()\<close>: torch raises on an empty tensor.\<close>

definition tensor_max :: "rat list \<Rightarrow> error + rat" where
  "tensor_max xs = (case xs of [] \<Rightarrow> Inl RuntimeError | x # rest \<Rightarrow> Inr (fold max rest x))"

text \<open>
  Line 43, \<open>active[~active] |= probs[~active] < topv.max() / i\<close>: only the inactive
  slots are written, each with its old value or-ed with the comparison of its stored
  score against the threshold.
\<close>

definition reactivate :: "bool list \<Rightarrow> rat list \<Rightarrow> rat \<Rightarrow> nat \<Rightarrow> bool list" where
  "reactivate active probs best i =
     map (\<lambda>(a, p). if \<not> a then a \<or> p < best / of_nat i else a) (zip active probs)"

text \<open>
  Lines 41 to 47: the first \<open>topk\<close>, and when the beam is below its initial size the
  reactivation and, if more slots are active than \<open>beam_size\<close>, the second \<open>topk\<close> with
  the larger \<open>beam_size\<close>. Returns \<open>(active, beam_size, topv, topi)\<close>.
\<close>

definition widen ::
  "rat list \<Rightarrow> bool list \<Rightarrow> rat list \<Rightarrow> nat \<Rightarrow> nat \<Rightarrow> nat
     \<Rightarrow> error + (bool list \<times> nat \<times> rat list \<times> nat list)"
where
  "widen flat active probs beam_size init_size i =
     (case topk flat beam_size of
        Inl e \<Rightarrow> Inl e
      | Inr (topv, topi) \<Rightarrow>
          if beam_size < init_size then
            (case tensor_max topv of
               Inl e \<Rightarrow> Inl e
             | Inr best \<Rightarrow>
                 (let active' = reactivate active probs best i;
                      active_count = count_nonzero active'
                  in if beam_size < active_count then
                       (case topk flat active_count of
                          Inl e \<Rightarrow> Inl e
                        | Inr (topv', topi') \<Rightarrow> Inr (active', active_count, topv', topi'))
                     else Inr (active', beam_size, topv, topi)))
          else Inr (active, beam_size, topv, topi))"

text \<open>
  The state of the loop of \<open>beam_search\<close>, and one run of its body at step \<open>i\<close>
  (\<open>i\<close> after the increment in the loop condition).
\<close>

record beam_state =
  active :: "bool list"
  paths :: "nat list list"
  probs :: "rat list"
  beam_size :: nat

text \<open>\<open>paths[active][topi // vocab.size()]\<close>: the parent rows, IndexError out of range.\<close>

fun parents :: "nat list list \<Rightarrow> nat list \<Rightarrow> error + nat list list" where
  "parents rows [] = Inr []"
| "parents rows (k # ks) =
     (case index_list rows k of
        Inl e \<Rightarrow> Inl e
      | Inr r \<Rightarrow> (case parents rows ks of Inl e \<Rightarrow> Inl e | Inr rs \<Rightarrow> Inr (r # rs)))"

definition beam_step ::
  "('e, 'm) model \<Rightarrow> Vocab \<Rightarrow> 'e \<Rightarrow> 'm \<Rightarrow> nat \<Rightarrow> nat \<Rightarrow> beam_state
     \<Rightarrow> error + (beam_state \<times> Vocab)"
where
  "beam_step mdl v src_encs src_mask init_size i s =
     (let rows = map (\<lambda>p. mdl src_encs src_mask (take i p)) (select (active s) (paths s));
          scores = map (\<lambda>(p, row). map (\<lambda>l. p + l) row) (zip (select (active s) (probs s)) rows)
      in case (if i = 1 then index_list scores 0 else Inr (concat scores)) of
           Inl e \<Rightarrow> Inl e
         | Inr flat \<Rightarrow>
         (case widen flat (active s) (probs s) (beam_size s) init_size i of
            Inl e \<Rightarrow> Inl e
          | Inr (act, bsz, topv, topi) \<Rightarrow>
          if size_vocab v = 0 then Inl RuntimeError
          else
          (case parents (select act (paths s)) (map (\<lambda>t. t div size_vocab v) topi) of
             Inl e \<Rightarrow> Inl e
           | Inr par \<Rightarrow>
           (case assign_where act (paths s) par of
              Inl e \<Rightarrow> Inl e
            | Inr paths1 \<Rightarrow>
            (case assign_where act paths1
                    (map (\<lambda>(p, t). p[i := t mod size_vocab v]) (zip (select act paths1) topi)) of
               Inl e \<Rightarrow> Inl e
             | Inr paths2 \<Rightarrow>
             (case assign_where act (probs s) topv of
                Inl e \<Rightarrow> Inl e
              | Inr probs1 \<Rightarrow>
              (case EOS v of
                 Inl e \<Rightarrow> Inl e
               | Inr (eos, v') \<Rightarrow>
                 (let terminated = map (\<lambda>p. p ! i = eos) paths2;
                      probs2 = map (\<lambda>(t, p). if t then p / of_nat i else p) (zip terminated probs1);
                      act2 = map (\<lambda>(a, t). a \<and> \<not> t) (zip act terminated)
                  in Inr (\<lparr>active = act2, paths = paths2, probs = probs2,
                            beam_size = count_nonzero act2\<rparr>, v')))))))))"

function beam_loop ::
  "('e, 'm) model \<Rightarrow> 'e \<Rightarrow> 'm \<Rightarrow> nat \<Rightarrow> nat \<Rightarrow> Vocab \<Rightarrow> nat \<Rightarrow> beam_state
     \<Rightarrow> error + (beam_state \<times> Vocab)"
where
  "beam_loop mdl src_encs src_mask max_len init_size v i s =
     (if i < max_len \<and> 0 < beam_size s then
        (case beam_step mdl v src_encs src_mask init_size i s of
           Inl e \<Rightarrow> Inl e
         | Inr (s', v') \<Rightarrow> beam_loop mdl src_encs src_mask max_len init_size v' (Suc i) s')
      else Inr (s, v))"
  by pat_completeness auto
termination
  by (relation "measure (\<lambda>(mdl, src_encs, src_mask, max_len, init_size, v, i, s). max_len - i)")
     auto

declare beam_loop.simps [simp del]

definition beam_search ::
  "('e, 'm) model \<Rightarrow> Vocab \<Rightarrow> 'e \<Rightarrow> 'm \<Rightarrow> nat \<Rightarrow> nat \<Rightarrow> error + (nat list \<times> Vocab)"
where
  "beam_search mdl v src_encs src_mask bsize max_len =
     (case BOS v of
        Inl e \<Rightarrow> Inl e
      | Inr (bos, v0) \<Rightarrow>
          (case beam_loop mdl src_encs src_mask max_len bsize v0 1
                  \<lparr>active = replicate bsize True, paths = replicate bsize (replicate max_len bos),
                   probs = replicate bsize 0, beam_size = bsize\<rparr> of
             Inl e \<Rightarrow> Inl e
           | Inr (s, v1) \<Rightarrow>
               (case argmax (probs s) of
                  Inl e \<Rightarrow> Inl e
                | Inr k \<Rightarrow>
                    (case index_list (paths s) k of
                       Inl e \<Rightarrow> Inl e
                     | Inr p \<Rightarrow> Inr (p, v1)))))"

section \<open>manager.py: Batch\<close>

text \<open>
  A two-dimensional tensor of ids is the list of its rows; \<open>width\<close> is its last
  dimension (0 for a tensor without rows). A span \<open>(a, b)\<close> is the index range
  \<open>[a, b)\<close>. \<open>dict_data\<close> models \<open>_dict_data\<close>, which \<open>batch_data\<close> sets to a
  \<open>zip\<close> iterator: the field holds the items the iterator has not yielded yet, one
  \<open>(lemmas, senses)\<close> pair per example. The device is left out: \<open>.to(device)\<close> does
  not change values.
\<close>

type_synonym span = "nat \<times> nat"

record Batch =
  src_nums :: "nat list list"
  tgt_nums :: "nat list list"
  dict_data :: "(span list \<times> span list) list"
  ignore_index :: "nat option"

definition width :: "'a list list \<Rightarrow> nat" where
  "width rows = (case rows of [] \<Rightarrow> 0 | r # _ \<Rightarrow> length r)"

text \<open>\<open>not self.ignore_index\<close>: true for None and for 0.\<close>

definition no_ignore :: "Batch \<Rightarrow> bool" where
  "no_ignore b = (case ignore_index b of None \<Rightarrow> True | Some k \<Rightarrow> k = 0)"

text \<open>\<open>src_mask\<close>, of shape [B, 1, Ls], or None.\<close>

definition src_mask :: "Batch \<Rightarrow> bool list list list option" where
  "src_mask b =
     (if no_ignore b then None
      else Some (map (\<lambda>row. [map (\<lambda>x. Some x \<noteq> ignore_index b) row]) (src_nums b)))"

text \<open>
  \<open>tgt_mask\<close>: with \<open>n\<close> the width of \<open>tgt_nums[:, :-1]\<close>, either \<open>triu_mask(n)\<close> of
  shape [1, n, n], or the padding mask [B, 1, n] and-ed with it, of shape [B, n, n].
\<close>

definition tgt_mask :: "Batch \<Rightarrow> bool list list list" where
  "tgt_mask b =
     (let t = map butlast (tgt_nums b); n = width t
      in if no_ignore b then triu_mask n
         else map (\<lambda>row. map (\<lambda>r. map (\<lambda>(c, x). Some x \<noteq> ignore_index b \<and> c \<le> r)
                                         (enumerate 0 row)) [0..<n]) t)"

text \<open>\<open>num_tokens\<close>, over \<open>tgt_nums[:, 1:]\<close>.\<close>

definition num_tokens :: "Batch \<Rightarrow> nat" where
  "num_tokens b =
     (let t = map tl (tgt_nums b)
      in if no_ignore b then sum_list (map sum_list t)
         else sum_list (map (\<lambda>row. length (filter (\<lambda>x. Some x \<noteq> ignore_index b) row)) t))"

definition size_batch :: "Batch \<Rightarrow> nat" where
  "size_batch b = length (src_nums b)"

text \<open>
  The mask of \<open>dict_mask\<close> has shape [2, B, Ls, Ls]. \<open>set_block\<close> is the slice
  assignment \<open>M[r0:r1, c0:c1] = x\<close> on one [Ls, Ls] matrix (a slice bound beyond the
  dimension is clamped, as Python does); \<open>assign_block\<close> is
  \<open>t[l, i, r0:r1, c0:c1] = x\<close>, with IndexError for an integer index out of range.
\<close>

type_synonym mask4 = "rat list list list list"

definition set_block :: "rat \<Rightarrow> span \<Rightarrow> span \<Rightarrow> rat list list \<Rightarrow> rat list list" where
  "set_block x rs cs M =
     map (\<lambda>(r, row).
            if fst rs \<le> r \<and> r < snd rs
            then map (\<lambda>(c, y). if fst cs \<le> c \<and> c < snd cs then x else y) (enumerate 0 row)
            else row)
         (enumerate 0 M)"

definition assign_block :: "mask4 \<Rightarrow> nat \<Rightarrow> nat \<Rightarrow> span \<Rightarrow> span \<Rightarrow> rat \<Rightarrow> error + mask4" where
  "assign_block t l i rs cs x =
     (case index_list t l of
        Inl e \<Rightarrow> Inl e
      | Inr layer \<Rightarrow>
          (case index_list layer i of
             Inl e \<Rightarrow> Inl e
           | Inr M \<Rightarrow> Inr (t[l := layer[i := set_block x rs cs M] ])))"

text \<open>The four assignments of the inner loop body, for example \<open>i\<close>.\<close>

definition write_pair :: "nat \<Rightarrow> nat \<Rightarrow> mask4 \<Rightarrow> span \<times> span \<Rightarrow> error + mask4" where
  "write_pair n i t p =
     (case p of (ab, cd) \<Rightarrow>
        (case assign_block t 0 i (0, n) cd 1 of
           Inl e \<Rightarrow> Inl e
         | Inr t1 \<Rightarrow>
        (case assign_block t1 0 i ab cd 0 of
           Inl e \<Rightarrow> Inl e
         | Inr t2 \<Rightarrow>
        (case assign_block t2 1 i cd (0, n) 1 of
           Inl e \<Rightarrow> Inl e
         | Inr t3 \<Rightarrow> assign_block t3 1 i cd cd 0))))"

fun write_pairs :: "nat \<Rightarrow> nat \<Rightarrow> mask4 \<Rightarrow> (span \<times> span) list \<Rightarrow> error + mask4" where
  "write_pairs n i t [] = Inr t"
| "write_pairs n i t (p # ps) =
     (case write_pair n i t p of Inl e \<Rightarrow> Inl e | Inr t' \<Rightarrow> write_pairs n i t' ps)"

fun write_examples :: "nat \<Rightarrow> nat \<Rightarrow> mask4 \<Rightarrow> (span list \<times> span list) list \<Rightarrow> error + mask4" where
  "write_examples n i t [] = Inr t"
| "write_examples n i t ((lemmas, senses) # rest) =
     (case write_pairs n i t (zip lemmas senses) of
        Inl e \<Rightarrow> Inl e
      | Inr t' \<Rightarrow> write_examples n (Suc i) t' rest)"

definition zeros4 :: "nat \<Rightarrow> nat \<Rightarrow> mask4" where
  "zeros4 B n = replicate 2 (replicate B (replicate n (replicate n 0)))"

text \<open>
  \<open>dict_mask\<close>: \<open>self.src_mask.size()\<close> raises AttributeError when \<open>src_mask\<close> is None.
  The loop consumes the iterator, so the batch is returned with no items left. When an
  assignment raises, the exception is the result.
\<close>

definition dict_mask :: "Batch \<Rightarrow> error + (mask4 \<times> Batch)" where
  "dict_mask b =
     (case src_mask b of
        None \<Rightarrow> Inl AttributeError
      | Some sm \<Rightarrow>
          (let n = width (src_nums b) in
           case write_examples n 0 (zeros4 (length sm) n) (dict_data b) of
             Inl e \<Rightarrow> Inl e
           | Inr t \<Rightarrow> Inr (t, b\<lparr>dict_data := []\<rparr>)))"

section \<open>manager.py: Manager.batch_data\<close>

text \<open>
  The fields of the Manager that \<open>batch_data\<close> reads: the vocabulary, the dictionary
  (lemma to sense tokens), the frequency table and the configuration options, which
  \<open>__init__\<close> sets as attributes. The sizes in the configuration are naturals.
\<close>

record Manager =
  vocab :: Vocab
  dict :: "string \<rightharpoonup> string list"
  freq :: "string \<rightharpoonup> int"
  max_length :: nat
  batch_size :: nat
  freq_limit :: int
  max_senses :: nat

type_synonym example = "string list \<times> string list \<times> span list \<times> span list"

text \<open>\<open>s.split(sep)\<close> for a one-character separator, \<open>endswith\<close> and \<open>rstrip\<close>.\<close>

fun split_from :: "char \<Rightarrow> string \<Rightarrow> string \<Rightarrow> string list" where
  "split_from sep cur [] = [cur]"
| "split_from sep cur (c # cs) =
     (if c = sep then cur # split_from sep [] cs else split_from sep (cur @ [c]) cs)"

definition split_char :: "char \<Rightarrow> string \<Rightarrow> string list" where
  "split_char sep s = split_from sep [] s"

definition endswith :: "string \<Rightarrow> string \<Rightarrow> bool" where
  "endswith w suf = (length suf \<le> length w \<and> drop (length w - length suf) w = suf)"

definition rstrip :: "string \<Rightarrow> string \<Rightarrow> string" where
  "rstrip w chars = rev (dropWhile (\<lambda>c. c \<in> set chars) (rev w))"

text \<open>
  The inner \<open>while\<close> of the lemma scan: \<open>i\<close> is advanced, and while it is below
  \<open>src_len\<close> and the word there carries the continuation marker, the stripped word is
  appended to the lemma. Returns the final \<open>i\<close> and the lemma so far.
\<close>

function join_lemma :: "string list \<Rightarrow> nat \<Rightarrow> nat \<Rightarrow> string \<Rightarrow> error + (nat \<times> string)" where
  "join_lemma ws src_len i lem =
     (let i' = Suc i in
      if i' < src_len then
        (case index_list ws i' of
           Inl e \<Rightarrow> Inl e
         | Inr w \<Rightarrow>
             if endswith w ''@@'' then join_lemma ws src_len i' (lem @ rstrip w ''@@'')
             else Inr (i', lem))
      else Inr (i', lem))"
  by pat_completeness auto
termination
  by (relation "measure (\<lambda>(ws, src_len, i, lem). src_len - i)") auto

declare join_lemma.simps [simp del]

text \<open>One lemma starting at \<open>i\<close>: returns the index of its last word and the lemma.\<close>

definition read_lemma :: "string list \<Rightarrow> nat \<Rightarrow> nat \<Rightarrow> error + (nat \<times> string)" where
  "read_lemma ws src_len i =
     (case index_list ws i of
        Inl e \<Rightarrow> Inl e
      | Inr w \<Rightarrow>
          if endswith w ''@@'' then
            (case join_lemma ws src_len i (rstrip w ''@@'') of
               Inl e \<Rightarrow> Inl e
             | Inr (i', lem) \<Rightarrow>
                 (case index_list ws i' of
                    Inl e \<Rightarrow> Inl e
                  | Inr w' \<Rightarrow> Inr (i', lem @ w')))
          else Inr (i, w))"

text \<open>
  The outer \<open>while\<close> of the lemma scan, with \<open>i\<close> the value after the increment in
  the loop condition (the scan starts at 0). \<open>src_len\<close> is the length of the source
  before any sense is appended. The \<open>break\<close> returns with the last recorded pair
  popped.
\<close>

function scan ::
  "Manager \<Rightarrow> nat \<Rightarrow> nat \<Rightarrow> string list \<Rightarrow> span list \<Rightarrow> span list
     \<Rightarrow> error + (string list \<times> span list \<times> span list)"
where
  "scan m src_len i ws lemmas senses =
     (if i < src_len then
        (case read_lemma ws src_len i of
           Inl e \<Rightarrow> Inl e
         | Inr (i', lem) \<Rightarrow>
             if freq m lem \<noteq> None \<and> dict m lem \<noteq> None then
               (case getitem (freq m) lem of
                  Inl e \<Rightarrow> Inl e
                | Inr f \<Rightarrow>
                    if f \<le> freq_limit m then
                      (case getitem (dict m) lem of
                         Inl e \<Rightarrow> Inl e
                       | Inr entry \<Rightarrow>
                           (let sense_start = length ws;
                                sense = take (max_senses m) entry;
                                sense_end = sense_start + length sense;
                                lemmas' = lemmas @ [(i, i' + 1)];
                                senses' = senses @ [(sense_start, sense_end)]
                            in if max_length m < length ws + length sense
                               then Inr (ws, butlast lemmas', butlast senses')
                               else scan m src_len (Suc i') (ws @ sense) lemmas' senses'))
                    else scan m src_len (Suc i') ws lemmas senses)
             else scan m src_len (Suc i') ws lemmas senses)
      else Inr (ws, lemmas, senses))"
  by pat_completeness auto
termination
proof -
  have join: "join_lemma ws n i l = Inr (i', l') \<Longrightarrow> i < i'" for ws n i l i' l'
  proof (induction ws n i l rule: join_lemma.induct)
    case (1 ws src_len i lem)
    from "1.prems" show ?case
      apply (subst (asm) join_lemma.simps)
      apply (simp only: Let_def split: if_splits sum.splits)
      using "1.IH" by (auto dest: Suc_lessD)
  qed
  have rd: "read_lemma ws n i = Inr (i', l') \<Longrightarrow> i \<le> i'" for ws n i i' l'
    by (auto simp: read_lemma_def split: sum.splits if_splits dest: join)
  show ?thesis
    apply (relation "measure (\<lambda>(m, src_len, i, ws, lemmas, senses). src_len - i)")
     apply simp
    apply (auto dest: rd)
    done
qed

declare scan.simps [simp del]

text \<open>
  One line of the data file. Unpacking the fields of the line, split at the tab
  character, into two names raises ValueError unless there are exactly two fields.
  \<open>None\<close> is a line left out by \<open>continue\<close>.
\<close>

definition process_line :: "Manager \<Rightarrow> string \<Rightarrow> error + example option" where
  "process_line m line =
     (case split_char (CHR 0x09) line of
        [src_line, tgt_line] \<Rightarrow>
          if src_line = [] \<or> tgt_line = [] then Inr None
          else
            (let src_words = [''<BOS>''] @ split_ws src_line @ [''<EOS>''];
                 tgt_words = [''<BOS>''] @ split_ws tgt_line @ [''<EOS>'']
             in if max_length m < length src_words then Inr None
                else if max_length m < length tgt_words then Inr None
                else
                  (case scan m (length src_words) 0 src_words [] [] of
                     Inl e \<Rightarrow> Inl e
                   | Inr (ws, lemmas, senses) \<Rightarrow> Inr (Some (ws, tgt_words, lemmas, senses))))
      | _ \<Rightarrow> Inl ValueError)"

fun collect :: "Manager \<Rightarrow> string list \<Rightarrow> example list \<Rightarrow> error + example list" where
  "collect m [] unbatched = Inr unbatched"
| "collect m (line # rest) unbatched =
     (case process_line m line of
        Inl e \<Rightarrow> Inl e
      | Inr None \<Rightarrow> collect m rest unbatched
      | Inr (Some ex) \<Rightarrow> collect m rest (unbatched @ [ex]))"

text \<open>
  \<open>unbatched.sort(key=..., reverse=True)\<close>: descending in
  \<open>(len(src_words), len(tgt_words))\<close>, examples with equal keys in their original order.
\<close>

definition sort_key_of :: "example \<Rightarrow> nat \<times> nat" where
  "sort_key_of ex = (case ex of (src_words, tgt_words, lemmas, senses) \<Rightarrow>
                       (length src_words, length tgt_words))"

fun insert_example :: "example \<Rightarrow> example list \<Rightarrow> example list" where
  "insert_example x [] = [x]"
| "insert_example x (y # ys) =
     (if sort_key_of x \<le> sort_key_of y then y # insert_example x ys else x # y # ys)"

definition sort_examples :: "example list \<Rightarrow> example list" where
  "sort_examples xs = fold insert_example xs []"

text \<open>
  The \<open>while True\<close> loop that sizes a bucket starting at \<open>i\<close>. Unpacking the
  zipped slice \<open>unbatched[i:i + batch_size]\<close> into four names raises ValueError when the
  slice is empty. Returns \<open>batch_size\<close>, the slice and its two maximal lengths. The
  loop has no bound in the source: the model returns \<open>None\<close> where it would not end.
\<close>

definition max_list :: "nat list \<Rightarrow> nat" where
  "max_list xs = fold max xs 0"

partial_function (option) size_bucket ::
  "Manager \<Rightarrow> example list \<Rightarrow> nat \<Rightarrow> nat \<Rightarrow> nat
     \<Rightarrow> (error + (nat \<times> example list \<times> nat \<times> nat)) option"
where
  "size_bucket m unbatched i src_len tgt_len =
     (if max src_len tgt_len * 8 = 0 then Some (Inl ZeroDivisionError)
      else
        (let bsz = batch_size m div (max src_len tgt_len * 8) * 8;
             slice = take bsz (drop i unbatched)
         in if slice = [] then Some (Inl ValueError)
            else
              (let max_src_len = max_list (map (\<lambda>ex. length (fst ex)) slice);
                   max_tgt_len = max_list (map (\<lambda>ex. length (fst (snd ex))) slice)
               in if max_src_len \<le> src_len \<and> max_tgt_len \<le> tgt_len
                  then Some (Inr (bsz, slice, max_src_len, max_tgt_len))
                  else size_bucket m unbatched i max_src_len max_tgt_len)))"

text \<open>
  \<open>nn.functional.pad(t, (0, k), value=x)\<close>: \<open>k\<close> copies of \<open>x\<close> at the end, or for
  a negative \<open>k\<close> the last \<open>-k\<close> entries cut off. \<open>k\<close> is \<open>target - len(words)\<close>.
\<close>

definition pad_to :: "nat list \<Rightarrow> nat \<Rightarrow> nat \<Rightarrow> nat \<Rightarrow> nat list" where
  "pad_to nums target len x =
     (if len \<le> target then nums @ replicate (target - len) x
      else take (length nums - (len - target)) nums)"

text \<open>
  The rows of \<open>src_nums\<close> and \<open>tgt_nums\<close>: for each sentence \<open>numberize\<close>, then the
  \<open>PAD\<close> property, then the padding.
\<close>

fun pad_rows :: "Vocab \<Rightarrow> nat \<Rightarrow> string list list \<Rightarrow> error + (nat list list \<times> Vocab)" where
  "pad_rows v target [] = Inr ([], v)"
| "pad_rows v target (ws # rest) =
     (case numberize v ws of
        Inl e \<Rightarrow> Inl e
      | Inr (nums, v1) \<Rightarrow>
          (case PAD v1 of
             Inl e \<Rightarrow> Inl e
           | Inr (pad, v2) \<Rightarrow>
               (case pad_rows v2 target rest of
                  Inl e \<Rightarrow> Inl e
                | Inr (rows, v3) \<Rightarrow> Inr (pad_to nums target (length ws) pad # rows, v3))))"

text \<open>
  Lines 302 to 313: the lengths rounded up to a multiple of 8 (\<open>math.ceil(n / 8) * 8\<close>,
  exact for the lengths that occur), the two tensors, the clamp of target ids at or above
  the decoding size to the id of UNK (comparing with None raises TypeError), and the
  Batch with \<open>zip(lemmas, senses)\<close> and the id of PAD as \<open>ignore_index\<close>.
\<close>

definition ceil8 :: "nat \<Rightarrow> nat" where
  "ceil8 n = (n + 7) div 8 * 8"

definition make_batch :: "Manager \<Rightarrow> example list \<Rightarrow> nat \<Rightarrow> nat \<Rightarrow> error + (Batch \<times> Manager)" where
  "make_batch m slice max_src_len max_tgt_len =
     (case pad_rows (vocab m) (ceil8 max_src_len) (map fst slice) of
        Inl e \<Rightarrow> Inl e
      | Inr (src, v1) \<Rightarrow>
     (case pad_rows v1 (ceil8 max_tgt_len) (map (\<lambda>ex. fst (snd ex)) slice) of
        Inl e \<Rightarrow> Inl e
      | Inr (tgt, v2) \<Rightarrow>
     (case size_decoding v2 of
        None \<Rightarrow> Inl TypeError
      | Some d \<Rightarrow>
     (case UNK v2 of
        Inl e \<Rightarrow> Inl e
      | Inr (unk, v3) \<Rightarrow>
     (case PAD v3 of
        Inl e \<Rightarrow> Inl e
      | Inr (pad, v4) \<Rightarrow>
          Inr (\<lparr>src_nums = src,
                tgt_nums = map (map (\<lambda>x. if d \<le> int x then unk else x)) tgt,
                dict_data = map (\<lambda>ex. (fst (snd (snd ex)), snd (snd (snd ex)))) slice,
                ignore_index = Some pad\<rparr>,
               m\<lparr>vocab := v4\<rparr>))))))"

text \<open>
  The bucket loop, with \<open>i\<close> the value after \<open>i := i + batch_size\<close> in the loop
  condition (0 at the start).
\<close>

partial_function (option) bucket_loop ::
  "Manager \<Rightarrow> example list \<Rightarrow> nat \<Rightarrow> Batch list \<Rightarrow> (error + (Batch list \<times> Manager)) option"
where
  "bucket_loop m unbatched i batched =
     (if i < length unbatched then
        (case size_bucket m unbatched i (length (fst (unbatched ! i)))
                (length (fst (snd (unbatched ! i)))) of
           None \<Rightarrow> None
         | Some (Inl e) \<Rightarrow> Some (Inl e)
         | Some (Inr (bsz, slice, max_src_len, max_tgt_len)) \<Rightarrow>
             (case make_batch m slice max_src_len max_tgt_len of
                Inl e \<Rightarrow> Some (Inl e)
              | Inr (b, m') \<Rightarrow> bucket_loop m' unbatched (i + bsz) (batched @ [b])))
      else Some (Inr (batched, m)))"

declare size_bucket.simps [code]

declare bucket_loop.simps [code]

definition batch_data :: "Manager \<Rightarrow> string list \<Rightarrow> (error + (Batch list \<times> Manager)) option" where
  "batch_data m data_file =
     (case collect m data_file [] of
        Inl e \<Rightarrow> Some (Inl e)
      | Inr unbatched \<Rightarrow> bucket_loop m (sort_examples unbatched) 0 [])"

section \<open>Properties and test data\<close>

text \<open>
  The vocabulary of the end-to-end example: \<open><PAD>\<close> 0, \<open><BOS>\<close> 1, \<open><EOS>\<close> 2,
  \<open>a\<close> 3, \<open>b\<close> 4, built with \<open>add\<close>.
\<close>

definition vocab5 :: Vocab where
  "vocab5 = fold (\<lambda>w v. add v w) [''<PAD>'', ''<BOS>'', ''<EOS>'', ''a'', ''b''] Vocab_init"

text \<open>
  A vocabulary is consistent when the id of every known word indexes that word in
  \<open>num_to_word\<close>. \<open>add\<close> keeps this, so it holds of every vocabulary built from the
  empty one by \<open>add\<close> alone.
\<close>

definition consistent :: "Vocab \<Rightarrow> bool" where
  "consistent v =
     (\<forall>w n. word_to_num v w = Some n \<longrightarrow> n < length (num_to_word v) \<and> num_to_word v ! n = w)"

text \<open>
  A scoring function for the end-to-end example: whatever the source, its best token is
  \<open>a\<close> (3) after one token, \<open>b\<close> (4) after two, and \<open><EOS>\<close> (2) from then on.
\<close>

definition abe_model :: "(unit, unit) model" where
  "abe_model encs smask prefix =
     (if length prefix = 1 then [-9, -9, -9, 0, -9]
      else if length prefix = 2 then [-9, -9, -9, -9, 0]
      else [-9, -9, 0, -9, -9])"

text \<open>
  Two batches of one example: one whose \<open>ignore_index\<close> is 0, and one whose source has
  16 positions with the lemma span \<open>[2, 4)\<close> and the sense span \<open>[10, 14)\<close> recorded.
\<close>

definition batch_pad0 :: Batch where
  "batch_pad0 = \<lparr>src_nums = [ [1, 3, 2, 0] ], tgt_nums = [ [1, 4, 2, 0] ], dict_data = [],
                  ignore_index = Some 0\<rparr>"

definition batch_span :: Batch where
  "batch_span = \<lparr>src_nums = [ [2, 5, 6, 6, 7, 7, 7, 7, 7, 3, 8, 8, 8, 8, 1, 1] ],
                  tgt_nums = [ [2, 5, 3, 1, 1, 1, 1, 1] ],
                  dict_data = [([(2, 4)], [(10, 14)])], ignore_index = Some 1\<rparr>"

text \<open>
  A Manager with an eight-token vocabulary, one dictionary entry (the lemma \<open>ab\<close> with
  the sense tokens \<open>x\<close>, \<open>y\<close>) and a budget of 128; a data file of two lines; and the
  one batch \<open>batch_data\<close> builds from them.
\<close>

definition manager0 :: Manager where
  "manager0 =
     \<lparr>vocab = (fold (\<lambda>w v. add v w)
                 [''<UNK>'', ''<PAD>'', ''<BOS>'', ''<EOS>'', ''a'', ''b'', ''x'', ''y'']
                 Vocab_init)\<lparr>decoding_size := Some 8\<rparr>,
      dict = [''ab'' \<mapsto> [''x'', ''y''] ], freq = [''ab'' \<mapsto> 1],
      max_length = 20, batch_size = 128, freq_limit = 5, max_senses = 4\<rparr>"

definition data0 :: "string list" where
  "data0 = [''a@@ b b'' @ [CHR 0x09] @ ''b a'' @ [CHR 0x0A],
            ''b'' @ [CHR 0x09] @ ''b a a'' @ [CHR 0x0A] ]"

definition batch0 :: Batch where
  "batch0 = \<lparr>src_nums = [ [2, 0, 5, 5, 3, 6, 7, 1], [2, 5, 3, 1, 1, 1, 1, 1] ],
              tgt_nums = [ [2, 5, 4, 3, 1, 1, 1, 1], [2, 5, 4, 4, 3, 1, 1, 1] ],
              dict_data = [([(1, 3)], [(5, 7)]), ([], [])],
              ignore_index = Some 1\<rparr>"

text \<open>
  Properties of the dictionary mask. \<open>in_span s k\<close>: the index \<open>k\<close> lies in the span.
  \<open>lemma_layer\<close> and \<open>sense_layer\<close> give the two layers of the mask of one example from
  its recorded pairs: layer 0 is 1 where the column lies in a sense span and the row
  outside the lemma span paired with it; layer 1 is 1 where the row lies in a sense span
  and the column outside that span.
\<close>

definition in_span :: "span \<Rightarrow> nat \<Rightarrow> bool" where
  "in_span s k = (fst s \<le> k \<and> k < snd s)"

definition lemma_layer :: "(span \<times> span) list \<Rightarrow> nat \<Rightarrow> nat \<Rightarrow> rat" where
  "lemma_layer ps r c = (if \<exists>(l, s) \<in> set ps. in_span s c \<and> \<not> in_span l r then 1 else 0)"

definition sense_layer :: "(span \<times> span) list \<Rightarrow> nat \<Rightarrow> nat \<Rightarrow> rat" where
  "sense_layer ps r c = (if \<exists>(l, s) \<in> set ps. in_span s r \<and> \<not> in_span s c then 1 else 0)"

text \<open>
  Spans in ascending order without overlap, the first starting at or after \<open>lo\<close>: the
  shape of the sense spans that the lemma scan records.
\<close>

fun ordered_from :: "nat \<Rightarrow> span list \<Rightarrow> bool" where
  "ordered_from lo [] = True"
| "ordered_from lo (s # ss) = (lo \<le> fst s \<and> fst s \<le> snd s \<and> ordered_from (snd s) ss)"

text \<open>The pairs \<open>zip(lemmas, senses)\<close> of one item of \<open>_dict_data\<close>.\<close>

definition pairs_of :: "span list \<times> span list \<Rightarrow> (span \<times> span) list" where
  "pairs_of ex = zip (fst ex) (snd ex)"

text \<open>
  The two assignments of the loop body of \<open>dict_mask\<close> to the layer-0 matrix of an
  example, and the two to its layer-1 matrix; \<open>square\<close> says a matrix is \<open>n\<close> by \<open>n\<close>.
\<close>

definition write0 :: "nat \<Rightarrow> span \<times> span \<Rightarrow> rat list list \<Rightarrow> rat list list" where
  "write0 n p M = set_block 0 (fst p) (snd p) (set_block 1 (0, n) (snd p) M)"

definition write1 :: "nat \<Rightarrow> span \<times> span \<Rightarrow> rat list list \<Rightarrow> rat list list" where
  "write1 n p M = set_block 0 (snd p) (snd p) (set_block 1 (snd p) (0, n) M)"

definition square :: "nat \<Rightarrow> 'a list list \<Rightarrow> bool" where
  "square n M = (length M = n \<and> (\<forall>r < n. length (M ! r) = n))"

text \<open>Examples and batches whose recorded sense spans are ordered.\<close>

definition ordered_example :: "example \<Rightarrow> bool" where
  "ordered_example ex = ordered_from 0 (snd (snd (snd ex)))"

definition ordered_batch :: "Batch \<Rightarrow> bool" where
  "ordered_batch b = (length (dict_data b) = length (src_nums b)
                      \<and> (\<forall>ex \<in> set (dict_data b). ordered_from 0 (snd ex)))"

section \<open>Vocabulary\<close>

lemma getitem_Some: "d k = Some x \<Longrightarrow> getitem d k = Inr x"
  by (simp add: getitem_def)

lemma getitem_None: "d k = None \<Longrightarrow> getitem d k = Inl KeyError"
  by (simp add: getitem_def)

lemma control_token_present: "word_to_num v w = Some n \<Longrightarrow> control_token w v = Inr (n, v)"
  by (simp add: control_token_def getitem_Some)

lemma control_token_absent: "word_to_num v w = None \<Longrightarrow> control_token w v = Inl KeyError"
  by (simp add: control_token_def getitem_None)

lemma control_token_unchanged:
  "control_token w v = Inr (n, v') \<Longrightarrow> v' = v \<and> word_to_num v w = Some n"
  by (auto simp: control_token_def getitem_def split: option.splits)

lemma consistent_init: "consistent Vocab_init"
  by (simp add: consistent_def Vocab_init_def)

lemma consistent_add: "consistent v \<Longrightarrow> consistent (add v w)"
  by (fastforce simp: consistent_def add_def size_vocab_def nth_append less_Suc_eq)

lemma consistent_inj:
  "consistent v \<Longrightarrow> word_to_num v w = Some n \<Longrightarrow> word_to_num v w' = Some n \<Longrightarrow> w = w'"
  by (auto simp: consistent_def)

lemma vocab5_word_to_num:
  "word_to_num vocab5 =
     [''<PAD>'' \<mapsto> 0, ''<BOS>'' \<mapsto> 1, ''<EOS>'' \<mapsto> 2, ''a'' \<mapsto> 3, ''b'' \<mapsto> 4]"
  by (simp add: vocab5_def add_def Vocab_init_def size_vocab_def eval_nat_numeral)

lemma vocab5_num_to_word:
  "num_to_word vocab5 = [''<PAD>'', ''<BOS>'', ''<EOS>'', ''a'', ''b'']"
  by (simp add: vocab5_def add_def Vocab_init_def size_vocab_def)

lemma consistent_vocab5: "consistent vocab5"
  unfolding vocab5_def by (simp add: consistent_add consistent_init)

text \<open>\<open>_from_file\<close> only adds tokens, so a loaded vocabulary is consistent.\<close>

lemma consistent_fold_add: "consistent v \<Longrightarrow> consistent (fold (\<lambda>i v. add v (g i)) xs v)"
  by (induction xs arbitrary: v) (simp_all add: consistent_add)

lemma consistent_add_lines: "add_lines v ls = Inr v' \<Longrightarrow> consistent v \<Longrightarrow> consistent v'"
  by (induction ls arbitrary: v) (auto split: sum.splits simp: consistent_add)

lemma consistent_decoding_size: "consistent (v\<lparr>decoding_size := d\<rparr>) = consistent v"
  by (simp add: consistent_def)

lemma consistent_from_file: "from_file v f = Inr v' \<Longrightarrow> consistent v \<Longrightarrow> consistent v'"
  by (auto simp: from_file_def Let_def consistent_decoding_size split: sum.splits
      intro!: consistent_fold_add dest!: consistent_add_lines)

lemma consistent_Vocab_load: "Vocab_load f = Inr v \<Longrightarrow> consistent v"
  by (auto simp: Vocab_load_def consistent_init dest: consistent_from_file)

text \<open>
  Claim C4. Reading \<open>UNK\<close>, \<open>BOS\<close>, \<open>EOS\<close> or \<open>PAD\<close> on a vocabulary that lacks the
  token should insert it and return its id. On the empty vocabulary each of the four
  properties raises KeyError instead: the dict lookup raises KeyError, and the handler
  that would add the token catches ValueError only.
\<close>

theorem absent_control_token_raises:
  "UNK Vocab_init = Inl KeyError \<and> BOS Vocab_init = Inl KeyError
   \<and> EOS Vocab_init = Inl KeyError \<and> PAD Vocab_init = Inl KeyError"
  by (simp add: UNK_def BOS_def EOS_def PAD_def control_token_absent Vocab_init_def)

text \<open>
  Claim C5. The decoding size of a loaded vocabulary should be a multiple of 8 for every
  value of \<open>end - start\<close>. For the header \<open>#0:7\<close> the first loop adds the one token
  \<open><PAD 0>\<close> and leaves \<open>i = 0\<close>, so \<open>i + 1 if i else 0\<close> adds nothing: the decoding
  size stays 7.
\<close>

theorem decoding_size_seven:
  "map_sum id size_decoding
     (Vocab_load \<lparr>range_start = 0, range_end = 7, token_lines = [''<UNK> 9'', ''the 5'']\<rparr>)
   = Inr (Some 7) \<and> \<not> (8::int) dvd 7"
  by code_simp

lemma from_file_decoding_size:
  "from_file v f = Inr v' \<Longrightarrow>
     decoding_size v' =
       Some (let d = range_end f - range_start f in if d mod 8 = 7 then d else d + 8 - d mod 8)"
  by (auto simp: from_file_def Let_def split: sum.splits)

lemma numberize_from_known:
  "set ws \<subseteq> dom (word_to_num v) \<Longrightarrow>
   numberize_from v ws acc = Inr (acc @ map (\<lambda>w. the (word_to_num v w)) ws, v)"
  by (induction ws arbitrary: acc) (auto simp: getitem_def)

lemma numberize_known:
  "set ws \<subseteq> dom (word_to_num v) \<Longrightarrow>
   numberize v ws = Inr (map (\<lambda>w. the (word_to_num v w)) ws, v)"
  by (simp add: numberize_def numberize_from_known)

lemma index_of_absent: "x \<notin> set ys \<Longrightarrow> index_of ys x = Inl ValueError"
  by (induction ys) auto

lemma lookup_words_known:
  "consistent v \<Longrightarrow> set ws \<subseteq> dom (word_to_num v) \<Longrightarrow>
   lookup_words v (map (\<lambda>w. the (word_to_num v w)) ws) = Inr ws"
  by (induction ws) (auto simp: consistent_def index_list_def)

text \<open>
  Claim C8, as amended. On a consistent vocabulary that holds \<open><BOS>\<close> and \<open><EOS>\<close>, for
  every sequence of known words that contains neither \<open><BOS>\<close> nor \<open><EOS>\<close>,
  \<open>numberize\<close> returns ids from which \<open>denumberize\<close> returns the sequence itself, and
  neither call changes the vocabulary.
\<close>

theorem roundtrip:
  assumes "consistent v"
    and "word_to_num v ''<BOS>'' \<noteq> None" and "word_to_num v ''<EOS>'' \<noteq> None"
    and "set ws \<subseteq> dom (word_to_num v)"
    and "''<BOS>'' \<notin> set ws" and "''<EOS>'' \<notin> set ws"
  shows "\<exists>nums. numberize v ws = Inr (nums, v) \<and> denumberize v nums False = Inr (ws, v)"
proof -
  let ?nums = "map (\<lambda>w. the (word_to_num v w)) ws"
  obtain bos eos where bos: "word_to_num v ''<BOS>'' = Some bos"
    and eos: "word_to_num v ''<EOS>'' = Some eos"
    using assms(2,3) by auto
  have nb: "bos \<notin> set ?nums"
  proof
    assume "bos \<in> set ?nums"
    then obtain w where w: "w \<in> set ws" "the (word_to_num v w) = bos" by auto
    with assms(4) have "word_to_num v w = Some bos" by auto
    with bos assms(1) have "w = ''<BOS>''" by (metis consistent_inj)
    with w assms(5) show False by simp
  qed
  have ne: "eos \<notin> set ?nums"
  proof
    assume "eos \<in> set ?nums"
    then obtain w where w: "w \<in> set ws" "the (word_to_num v w) = eos" by auto
    with assms(4) have "word_to_num v w = Some eos" by auto
    with eos assms(1) have "w = ''<EOS>''" by (metis consistent_inj)
    with w assms(6) show False by simp
  qed
  have "denumberize v ?nums False = Inr (ws, v)"
    using assms(1,4) bos eos nb ne
    by (simp add: denumberize_def BOS_def EOS_def control_token_present index_of_absent
        lookup_words_known)
  then show ?thesis using numberize_known[OF assms(4)] by blast
qed

theorem roundtrip_witness:
  "\<exists>nums. numberize vocab5 [''a'', ''b'', ''a''] = Inr (nums, vocab5)
      \<and> denumberize vocab5 nums False = Inr ([''a'', ''b'', ''a''], vocab5)"
  using roundtrip [of vocab5 "[''a'', ''b'', ''a'']"]
  by (simp add: consistent_vocab5 vocab5_word_to_num)

text \<open>
  Claim C8 as stated fails: \<open><BOS>\<close> and \<open>a\<close> are known words of the example
  vocabulary, and the round trip of \<open>[<BOS>, a]\<close> returns \<open>[a]\<close>, since \<open>denumberize\<close>
  drops everything up to the first \<open><BOS>\<close>.
\<close>

theorem roundtrip_counterexample:
  "word_to_num vocab5 ''<BOS>'' = Some 1 \<and> word_to_num vocab5 ''a'' = Some 3
   \<and> numberize vocab5 [''<BOS>'', ''a''] = Inr ([1, 3], vocab5)
   \<and> denumberize vocab5 [1, 3] False = Inr ([''a''], vocab5)
   \<and> [''a''] \<noteq> [''<BOS>'', ''a'']"
  by (simp add: numberize_def getitem_def denumberize_def BOS_def EOS_def control_token_def
      vocab5_word_to_num vocab5_num_to_word index_list_def)

section \<open>Decoding\<close>

lemma BOS_vocab5: "BOS vocab5 = Inr (1, vocab5)"
  by (simp add: BOS_def control_token_present vocab5_word_to_num)

lemma EOS_vocab5: "EOS vocab5 = Inr (2, vocab5)"
  by (simp add: EOS_def control_token_present vocab5_word_to_num)

text \<open>
  Claim C2, as amended. With the example vocabulary, for every source and every scoring
  function whose best token is \<open>a\<close> after \<open>[<BOS>]\<close>, \<open>b\<close> after \<open>[<BOS>, a]\<close> and
  \<open><EOS>\<close> after \<open>[<BOS>, a, b]\<close>, and for every \<open>max_length\<close> of at least 4,
  \<open>greedy_search\<close> returns \<open>[<BOS>, a, b, <EOS>]\<close> followed by the id of \<open><BOS>\<close>, with
  which the path was filled at the start, in every remaining position.
\<close>

theorem greedy_example:
  assumes "argmax (mdl encs smask [1]) = Inr 3"
    and "argmax (mdl encs smask [1, 3]) = Inr 4"
    and "argmax (mdl encs smask [1, 3, 4]) = Inr 2"
    and "4 \<le> max_len"
  shows "greedy_search mdl vocab5 encs smask max_len
         = Inr ([1, 3, 4, 2] @ replicate (max_len - 4) 1, vocab5)"
proof -
  obtain k where k: "max_len = 4 + k"
    using assms(4) by (metis le_Suc_ex)
  have rep: "replicate max_len (1::nat) = 1 # 1 # 1 # 1 # replicate k 1"
    by (simp add: k eval_nat_numeral)
  have upd: "(a # b # c # d # xs)[1 := t] = a # t # c # d # xs"
    "(a # b # c # d # xs)[2 := t] = a # b # t # d # xs"
    "(a # b # c # d # xs)[3 := t] = a # b # c # t # xs" for a b c d t :: nat and xs
    by (simp_all add: eval_nat_numeral)
  have tk: "take 1 (a # b # c # d # xs) = [a]" "take 2 (a # b # c # d # xs) = [a, b]"
    "take 3 (a # b # c # d # xs) = [a, b, c]" for a b c d :: nat and xs
    by (simp_all add: eval_nat_numeral)
  have nt: "(a # b # c # d # xs) ! 1 = b" "(a # b # c # d # xs) ! 2 = c"
    "(a # b # c # d # xs) ! 3 = d" for a b c d :: nat and xs
    by (simp_all add: eval_nat_numeral)
  have s3: "greedy_loop mdl encs smask max_len vocab5 3 (1 # 3 # 4 # 1 # replicate k 1)
            = Inr (1 # 3 # 4 # 2 # replicate k 1, vocab5)"
    apply (subst greedy_loop.simps)
    using assms(3) by (simp add: k EOS_vocab5 upd tk nt)
  have s2: "greedy_loop mdl encs smask max_len vocab5 2 (1 # 3 # 1 # 1 # replicate k 1)
            = Inr (1 # 3 # 4 # 2 # replicate k 1, vocab5)"
    apply (subst greedy_loop.simps)
    using assms(2) s3 by (simp add: k EOS_vocab5 upd tk nt flip: numeral_3_eq_3)
  have s1: "greedy_loop mdl encs smask max_len vocab5 1 (1 # 1 # 1 # 1 # replicate k 1)
            = Inr (1 # 3 # 4 # 2 # replicate k 1, vocab5)"
    apply (subst greedy_loop.simps)
    using assms(1) s2 by (simp add: k EOS_vocab5 upd tk nt flip: numeral_2_eq_2)
  have "greedy_search mdl vocab5 encs smask max_len
        = greedy_loop mdl encs smask max_len vocab5 1 (replicate max_len 1)"
    by (simp add: greedy_search_def BOS_vocab5)
  also have "\<dots> = Inr (1 # 3 # 4 # 2 # replicate k 1, vocab5)"
    unfolding rep by (rule s1)
  also have "1 # 3 # 4 # 2 # replicate k 1 = [1, 3, 4, 2] @ replicate (max_len - 4) (1::nat)"
    by (simp add: k)
  finally show ?thesis .
qed

theorem greedy_example_witness:
  "greedy_search abe_model vocab5 () () 6 = Inr ([1, 3, 4, 2, 1, 1], vocab5)"
  using greedy_example [of abe_model "()" "()" 6]
  by (simp add: abe_model_def argmax_def eval_nat_numeral)

text \<open>
  Claim C2 as stated fails: with \<open>max_length = 6\<close> the two positions after \<open><EOS>\<close>
  hold 1, the id of \<open><BOS>\<close>, not 0, the id of \<open><PAD>\<close>.
\<close>

theorem greedy_example_counterexample:
  "map_sum id fst (greedy_search abe_model vocab5 () () 6) = Inr [1, 3, 4, 2, 1, 1]
   \<and> [1, 3, 4, 2, 1, 1] \<noteq> [1, 3, 4, 2, 0, 0 :: nat]
   \<and> word_to_num vocab5 ''<PAD>'' = Some 0 \<and> word_to_num vocab5 ''<BOS>'' = Some 1"
  by code_simp

lemma reactivate_length: "length (reactivate act prb best i) = min (length act) (length prb)"
  by (simp add: reactivate_def)

lemma reactivate_nth:
  "j < length act \<Longrightarrow> j < length prb \<Longrightarrow>
   reactivate act prb best i ! j = (act ! j \<or> prb ! j < best / of_nat i)"
  by (auto simp: reactivate_def)

text \<open>
  Claim C1, as amended. At a step \<open>i\<close> at which \<open>beam_size\<close> is below its initial
  value, an inactive slot is re-activated exactly when its stored score is strictly
  below (maximal selected candidate score) / \<open>i\<close>; an inactive slot whose stored score
  is at or above that threshold stays inactive.
\<close>

theorem reactivation_rule:
  assumes "widen flat act prb bsz init_size i = Inr (act', bsz', topv', topi')"
    and "topk flat bsz = Inr (topv, topi)"
    and "tensor_max topv = Inr best"
    and "bsz < init_size"
    and "j < length act" and "j < length prb" and "\<not> act ! j"
  shows "act' ! j \<longleftrightarrow> prb ! j < best / of_nat i"
  using assms
  by (auto simp: widen_def Let_def reactivate_nth split: sum.splits if_splits)

theorem reactivation_rule_witness:
  "widen [-3, -4, -7] [True, False] [-2, -4] 1 2 2 = Inr ([True, True], 2, [-3, -4], [0, 1])
   \<and> topk [-3, -4, -7] 1 = Inr ([-3], [0]) \<and> tensor_max [-3] = Inr (-3)
   \<and> (([True, True] ! 1) \<longleftrightarrow> ([-2, -4] ! 1 < (-3 :: rat) / of_nat 2))"
proof -
  have w: "widen [-3, -4, -7] [True, False] [-2, -4] 1 2 2 = Inr ([True, True], 2, [-3, -4], [0, 1])"
    by code_simp
  have t: "topk [-3, -4, -7] 1 = Inr ([-3], [0])" by code_simp
  have m: "tensor_max [-3] = Inr (-3)" by code_simp
  show ?thesis
    using reactivation_rule [OF w t m, of 1] w t m by simp
qed

text \<open>
  Claim C1 as stated fails. At step 2 with one live path of two, the best candidate
  scores \<open>-3\<close>, so the threshold is \<open>-3/2\<close>. A slot that stores \<open>-4\<close>, which does not
  exceed the threshold, is re-activated; a slot that stores \<open>-1\<close>, which exceeds it,
  stays inactive.
\<close>

theorem reactivation_counterexample:
  "widen [-3, -4, -7] [True, False] [-2, -4] 1 2 2 = Inr ([True, True], 2, [-3, -4], [0, 1])
   \<and> \<not> ((-4 :: rat) > -3 / of_nat 2)
   \<and> widen [-3, -4, -7] [False, True] [-1, -2] 1 2 2 = Inr ([False, True], 1, [-3], [0])
   \<and> (-1 :: rat) > -3 / of_nat 2"
  by code_simp

section \<open>Batch\<close>

lemma triu_mask_nth: "r < n \<Longrightarrow> c < n \<Longrightarrow> triu_mask n ! 0 ! r ! c \<longleftrightarrow> c \<le> r"
  by (simp add: triu_mask_def)

text \<open>
  Claim C10. For a Batch whose \<open>ignore_index\<close> is 0, \<open>src_mask\<close> is None, \<open>tgt_mask\<close> is
  \<open>triu_mask\<close> of the target width less one, true exactly on and below the diagonal
  whatever the target ids are, and \<open>num_tokens\<close> is the sum of the target ids from
  position 1 on.
\<close>

theorem ignore_index_zero:
  assumes "ignore_index b = Some 0"
  shows "src_mask b = None
       \<and> tgt_mask b = triu_mask (width (map butlast (tgt_nums b)))
       \<and> (\<forall>r < width (map butlast (tgt_nums b)). \<forall>c < width (map butlast (tgt_nums b)).
             tgt_mask b ! 0 ! r ! c \<longleftrightarrow> c \<le> r)
       \<and> num_tokens b = sum_list (map (\<lambda>row. sum_list (tl row)) (tgt_nums b))"
  using assms
  by (simp add: src_mask_def tgt_mask_def num_tokens_def no_ignore_def Let_def triu_mask_nth
      comp_def)

theorem ignore_index_zero_witness:
  "src_mask batch_pad0 = None
   \<and> tgt_mask batch_pad0 = [ [ [True, False, False], [True, True, False], [True, True, True] ] ]
   \<and> num_tokens batch_pad0 = 6"
  using ignore_index_zero [of batch_pad0]
  by (simp add: batch_pad0_def width_def triu_mask_def upt_rec)

lemma set_block_length: "length (set_block x rs cs M) = length M"
  by (simp add: set_block_def)

lemma set_block_row_length: "r < length M \<Longrightarrow> length (set_block x rs cs M ! r) = length (M ! r)"
  by (simp add: set_block_def nth_enumerate_eq)

lemma set_block_nth:
  "r < length M \<Longrightarrow> c < length (M ! r) \<Longrightarrow>
   set_block x rs cs M ! r ! c =
     (if fst rs \<le> r \<and> r < snd rs \<and> fst cs \<le> c \<and> c < snd cs then x else M ! r ! c)"
  by (simp add: set_block_def nth_enumerate_eq)

lemma zeros4_two: "zeros4 B n = [replicate B (replicate n (replicate n 0)), replicate B (replicate n (replicate n 0))]"
  by (simp add: zeros4_def eval_nat_numeral)

text \<open>
  Claim C6. For a Batch of one example with source length \<open>n\<close> whose recorded pairs are
  the lemma span \<open>[2, 4)\<close> with the sense span \<open>[10, 14)\<close>: when \<open>ignore_index\<close> is None or
  0 no mask is produced (\<open>dict_mask\<close> raises AttributeError); otherwise the first read
  produces a mask of two layers, one matrix each, where layer 0 is 1 at the columns
  \<open>[10, 14)\<close> of every row outside \<open>[2, 4)\<close> and 0 elsewhere, and layer 1 is 1 at the
  rows \<open>[10, 14)\<close> in every column outside \<open>[10, 14)\<close> and 0 elsewhere.
\<close>

theorem dict_mask_example:
  assumes "src_nums b = [row]" and "length row = n"
    and "dict_data b = [([(2, 4)], [(10, 14)])]"
  shows "(no_ignore b \<longrightarrow> dict_mask b = Inl AttributeError)
       \<and> (\<not> no_ignore b \<longrightarrow>
            (\<exists>M. dict_mask b = Inr (M, b\<lparr>dict_data := []\<rparr>) \<and> length M = 2
               \<and> length (M ! 0) = 1 \<and> length (M ! 1) = 1
               \<and> (\<forall>r < n. \<forall>c < n.
                     M ! 0 ! 0 ! r ! c
                       = (if 10 \<le> c \<and> c < 14 \<and> \<not> (2 \<le> r \<and> r < 4) then 1 else 0)
                   \<and> M ! 1 ! 0 ! r ! c
                       = (if 10 \<le> r \<and> r < 14 \<and> \<not> (10 \<le> c \<and> c < 14) then 1 else 0))))"
proof (intro conjI impI)
  assume "no_ignore b"
  then show "dict_mask b = Inl AttributeError"
    by (simp add: dict_mask_def src_mask_def)
next
  assume ni: "\<not> no_ignore b"
  let ?Z = "replicate n (replicate n (0::rat))"
  let ?A = "set_block 0 (2, 4) (10, 14) (set_block 1 (0, n) (10, 14) ?Z)"
  let ?B = "set_block 0 (10, 14) (10, 14) (set_block 1 (10, 14) (0, n) ?Z)"
  have sm: "src_mask b = Some [ [map (\<lambda>x. Some x \<noteq> ignore_index b) row] ]"
    using assms(1) ni by (simp add: src_mask_def)
  have wp: "write_pair n 0 (zeros4 (Suc 0) n) ((2, 4), (10, 14)) = Inr [ [?A], [?B] ]"
    by (simp add: write_pair_def assign_block_def index_list_def zeros4_two)
  have dm: "dict_mask b = Inr ([ [?A], [?B] ], b\<lparr>dict_data := []\<rparr>)"
    using assms by (simp add: dict_mask_def sm width_def wp)
  have A: "?A ! r ! c = (if 10 \<le> c \<and> c < 14 \<and> \<not> (2 \<le> r \<and> r < 4) then 1 else 0)"
    if "r < n" "c < n" for r c
    using that by (simp add: set_block_nth set_block_length set_block_row_length)
  have B: "?B ! r ! c = (if 10 \<le> r \<and> r < 14 \<and> \<not> (10 \<le> c \<and> c < 14) then 1 else 0)"
    if "r < n" "c < n" for r c
    using that by (simp add: set_block_nth set_block_length set_block_row_length)
  show "\<exists>M. dict_mask b = Inr (M, b\<lparr>dict_data := []\<rparr>) \<and> length M = 2
               \<and> length (M ! 0) = 1 \<and> length (M ! 1) = 1
               \<and> (\<forall>r < n. \<forall>c < n.
                     M ! 0 ! 0 ! r ! c
                       = (if 10 \<le> c \<and> c < 14 \<and> \<not> (2 \<le> r \<and> r < 4) then 1 else 0)
                   \<and> M ! 1 ! 0 ! r ! c
                       = (if 10 \<le> r \<and> r < 14 \<and> \<not> (10 \<le> c \<and> c < 14) then 1 else 0))"
    using dm A B by simp
qed

theorem dict_mask_example_witness:
  "\<exists>M. dict_mask batch_span = Inr (M, batch_span\<lparr>dict_data := []\<rparr>) \<and> length M = 2
     \<and> M ! 0 ! 0 ! 3 ! 12 = 0 \<and> M ! 0 ! 0 ! 5 ! 12 = 1 \<and> M ! 0 ! 0 ! 5 ! 9 = 0
     \<and> M ! 1 ! 0 ! 12 ! 5 = 1 \<and> M ! 1 ! 0 ! 12 ! 12 = 0 \<and> M ! 1 ! 0 ! 5 ! 5 = 0"
proof -
  have ni: "\<not> no_ignore batch_span"
    by (simp add: no_ignore_def batch_span_def)
  from dict_mask_example [of batch_span _ 16] ni
  obtain M where m: "dict_mask batch_span = Inr (M, batch_span\<lparr>dict_data := []\<rparr>)" "length M = 2"
    and e: "\<forall>r < 16. \<forall>c < 16.
                 M ! 0 ! 0 ! r ! c = (if 10 \<le> c \<and> c < 14 \<and> \<not> (2 \<le> r \<and> r < 4) then 1 else 0)
               \<and> M ! 1 ! 0 ! r ! c = (if 10 \<le> r \<and> r < 14 \<and> \<not> (10 \<le> c \<and> c < 14) then 1 else 0)"
    by (auto simp: batch_span_def)
  have "M ! 0 ! 0 ! 3 ! 12 = 0" "M ! 0 ! 0 ! 5 ! 12 = 1" "M ! 0 ! 0 ! 5 ! 9 = 0"
    "M ! 1 ! 0 ! 12 ! 5 = 1" "M ! 1 ! 0 ! 12 ! 12 = 0" "M ! 1 ! 0 ! 5 ! 5 = 0"
    using e by simp_all
  with m show ?thesis by blast
qed

section \<open>Batching\<close>

lemma split_from_no_sep: "sep \<notin> set s \<Longrightarrow> split_from sep cur s = [cur @ s]"
  by (induction s arbitrary: cur) auto

lemma process_line_no_tab: "CHR 0x09 \<notin> set line \<Longrightarrow> process_line m line = Inl ValueError"
  by (simp add: process_line_def split_char_def split_from_no_sep)

lemma collect_append:
  "collect m (xs @ ys) acc =
     (case collect m xs acc of Inl e \<Rightarrow> Inl e | Inr acc' \<Rightarrow> collect m ys acc')"
  by (induction xs arbitrary: acc) (auto split: sum.splits option.splits)

text \<open>
  Claim C3, as amended. A line without a tab is not skipped: when the lines before it are
  processed without an exception, \<open>batch_data\<close> raises ValueError at that line (the
  two-name unpacking of the split fails), whatever lines follow, and returns no batch.
\<close>

theorem tabless_line_raises:
  assumes "CHR 0x09 \<notin> set line" and "collect m before [] = Inr unbatched"
  shows "batch_data m (before @ line # rest) = Some (Inl ValueError)"
  using assms by (simp add: batch_data_def collect_append process_line_no_tab)

theorem tabless_line_raises_witness:
  "batch_data manager0 ([''b'' @ [CHR 0x09] @ ''b a a'' @ [CHR 0x0A] ] @ ''a b'' # data0)
     = Some (Inl ValueError)"
proof -
  have c: "collect manager0 [''b'' @ [CHR 0x09] @ ''b a a'' @ [CHR 0x0A] ] []
           = Inr [([''<BOS>'', ''b'', ''<EOS>''], [''<BOS>'', ''b'', ''a'', ''a'', ''<EOS>''], [], [])]"
    by code_simp
  have t: "CHR 0x09 \<notin> set ''a b''" by simp
  show ?thesis
    using tabless_line_raises [OF t c] .
qed

text \<open>
  Claim C3 as stated fails: on a data file whose only line \<open>a b\<close> has no tab,
  \<open>batch_data\<close> raises ValueError.
\<close>

theorem tabless_line_counterexample:
  "CHR 0x09 \<notin> set (''a b'' @ [CHR 0x0A])
   \<and> batch_data manager0 [''a b'' @ [CHR 0x0A] ] = Some (Inl ValueError)"
  by (simp add: batch_data_def process_line_no_tab)

lemma numberize_from_length:
  "numberize_from v ws acc = Inr (nums, v') \<Longrightarrow> length nums = length acc + length ws"
  by (induction ws arbitrary: v acc) (auto split: sum.splits if_splits)

lemma numberize_length: "numberize v ws = Inr (nums, v') \<Longrightarrow> length nums = length ws"
  by (auto simp: numberize_def dest: numberize_from_length)

lemma pad_to_length: "length nums = len \<Longrightarrow> length (pad_to nums target len x) = target"
  by (auto simp: pad_to_def)

lemma pad_rows_lengths:
  "pad_rows v target wss = Inr (rows, v') \<Longrightarrow>
   length rows = length wss \<and> (\<forall>row \<in> set rows. length row = target)"
proof (induction wss arbitrary: v rows)
  case Nil
  then show ?case by simp
next
  case (Cons ws wss)
  from Cons.prems obtain nums v1 pad v2 rows' where
    n: "numberize v ws = Inr (nums, v1)" and p: "PAD v1 = Inr (pad, v2)"
    and r: "pad_rows v2 target wss = Inr (rows', v')"
    and rows: "rows = pad_to nums target (length ws) pad # rows'"
    by (auto split: sum.splits)
  from Cons.IH[OF r] numberize_length[OF n] show ?case
    by (simp add: rows pad_to_length)
qed

lemma make_batch_shape:
  assumes "make_batch m slice ms mt = Inr (b, m')"
  shows "length (src_nums b) = length slice \<and> length (tgt_nums b) = length slice
       \<and> (\<forall>row \<in> set (src_nums b). length row = ceil8 ms)
       \<and> (\<forall>row \<in> set (tgt_nums b). length row = ceil8 mt)
       \<and> dict_data b = map (\<lambda>ex. (fst (snd (snd ex)), snd (snd (snd ex)))) slice"
  using assms
  by (auto simp: make_batch_def split: sum.splits option.splits dest!: pad_rows_lengths)

lemma size_bucket_result:
  assumes "size_bucket m u i s t = Some r"
  shows "\<forall>bsz slice ms mt. r = Inr (bsz, slice, ms, mt) \<longrightarrow> slice \<noteq> [] \<and> set slice \<subseteq> set u"
  using assms
proof (rule size_bucket.raw_induct
    [rotated, where P = "\<lambda>m u i s t r. \<forall>bsz slice ms mt. r = Inr (bsz, slice, ms, mt) \<longrightarrow>
                          slice \<noteq> [] \<and> set slice \<subseteq> set u"], goal_cases)
  case (1 f m u i s t r)
  let ?bsz = "batch_size m div (max s t * 8) * 8"
  let ?slice = "take ?bsz (drop i u)"
  let ?ms = "max_list (map (\<lambda>ex. length (fst ex)) ?slice)"
  let ?mt = "max_list (map (\<lambda>ex. length (fst (snd ex))) ?slice)"
  have sub: "set ?slice \<subseteq> set u"
    by (meson in_set_dropD in_set_takeD subsetI)
  consider (zero) "max s t * 8 = 0"
    | (empty) "max s t * 8 \<noteq> 0" "?slice = []"
    | (fit) "max s t * 8 \<noteq> 0" "?slice \<noteq> []" "?ms \<le> s \<and> ?mt \<le> t"
    | (again) "max s t * 8 \<noteq> 0" "?slice \<noteq> []" "\<not> (?ms \<le> s \<and> ?mt \<le> t)"
    by blast
  then show ?case
  proof cases
    case zero
    with 1(2) have "r = Inl ZeroDivisionError" by simp
    then show ?thesis by simp
  next
    case empty
    with 1(2) have "r = Inl ValueError" by (simp add: Let_def split: if_splits)
    then show ?thesis by simp
  next
    case fit
    with 1(2) have "r = Inr (?bsz, ?slice, ?ms, ?mt)"
      by (simp add: Let_def split: if_splits)
    with fit(2) sub show ?thesis by simp
  next
    case again
    with 1(2) have "f m u i ?ms ?mt = Some r"
      by (simp add: Let_def split: if_splits)
    from 1(1)[OF this] show ?thesis .
  qed
qed

lemma size_bucket_slice:
  "size_bucket m u i s t = Some (Inr (bsz, slice, ms, mt)) \<Longrightarrow> slice \<noteq> [] \<and> set slice \<subseteq> set u"
  using size_bucket_result by blast

lemma bucket_loop_result:
  assumes run: "bucket_loop m u i acc = Some r"
    and step: "\<And>m slice ms mt b m'. slice \<noteq> [] \<Longrightarrow> set slice \<subseteq> set u \<Longrightarrow>
           make_batch m slice ms mt = Inr (b, m') \<Longrightarrow> P b"
  shows "(\<forall>b \<in> set acc. P b) \<longrightarrow> (\<forall>bs m'. r = Inr (bs, m') \<longrightarrow> (\<forall>b \<in> set bs. P b))"
proof -
  have "u0 = u \<longrightarrow> (\<forall>b \<in> set acc. P b) \<longrightarrow> (\<forall>bs m'. r = Inr (bs, m') \<longrightarrow> (\<forall>b \<in> set bs. P b))"
    if "bucket_loop m u0 i acc = Some r" for u0
    using that
  proof (rule bucket_loop.raw_induct
      [rotated, where P = "\<lambda>m u0 i acc r. u0 = u \<longrightarrow> (\<forall>b \<in> set acc. P b) \<longrightarrow>
                            (\<forall>bs m'. r = Inr (bs, m') \<longrightarrow> (\<forall>b \<in> set bs. P b))"], goal_cases)
    case (1 f m u0 i acc r)
    show ?case
    proof (intro impI allI)
      fix bs m'
      assume u0: "u0 = u" and acc: "\<forall>b \<in> set acc. P b" and r: "r = Inr (bs, m')"
      show "\<forall>b \<in> set bs. P b"
      proof (cases "i < length u0")
        case False
        with 1(2) r have "bs = acc" by simp
        with acc show ?thesis by simp
      next
        case True
        with 1(2) r obtain bsz slice ms mt b m1 where
          sb: "size_bucket m u0 i (length (fst (u0 ! i))) (length (fst (snd (u0 ! i))))
               = Some (Inr (bsz, slice, ms, mt))"
          and mb: "make_batch m slice ms mt = Inr (b, m1)"
          and rec: "f m1 u0 (i + bsz) (acc @ [b]) = Some r"
          by (auto split: option.splits sum.splits)
        from size_bucket_slice[OF sb] mb u0 have "P b"
          using step by blast
        with acc have "\<forall>b \<in> set (acc @ [b]). P b" by simp
        with 1(1)[OF rec] u0 r show ?thesis by blast
      qed
    qed
  qed
  from this[OF run] show ?thesis by simp
qed

lemma bucket_loop_all:
  assumes "bucket_loop m u i acc = Some (Inr (bs, m'))"
    and "\<forall>b \<in> set acc. P b"
    and "\<And>m slice ms mt b m'. slice \<noteq> [] \<Longrightarrow> set slice \<subseteq> set u \<Longrightarrow>
           make_batch m slice ms mt = Inr (b, m') \<Longrightarrow> P b"
  shows "\<forall>b \<in> set bs. P b"
  using bucket_loop_result[OF assms(1), of P] assms(2,3) by blast

lemma ceil8_mod: "ceil8 n mod 8 = 0"
  by (simp add: ceil8_def)

section \<open>The bucket loops end\<close>

text \<open>
  The two bucket loops are modelled as partial functions. Both always end: the sizing
  loop within three rounds, because a second re-measuring can only look at a shorter
  slice, and the bucket loop because each bucket holds at least one example. So
  \<open>batch_data\<close> always returns, with an exception or with its batches.
\<close>

lemma max_list_Max: "max_list xs = Max (insert 0 (set xs))"
  unfolding max_list_def using Max.set_eq_fold[of 0 xs] by simp

lemma max_list_take_mono:
  "k \<le> k' \<Longrightarrow> max_list (map g (take k xs)) \<le> max_list (map g (take k' xs))"
  unfolding max_list_Max
  by (rule Max_mono) (auto dest: set_take_subset_set_take[THEN subsetD] simp: image_iff)

lemma bucket_size_antimono:
  "0 < a \<Longrightarrow> a \<le> a' \<Longrightarrow> (B::nat) div (a' * 8) * 8 \<le> B div (a * 8) * 8"
  by (simp add: div_le_mono2)

lemma size_bucket_unfold:
  assumes "0 < max s t \<Longrightarrow>
     \<exists>r. size_bucket m u i
            (max_list (map (\<lambda>ex. length (fst ex))
               (take (batch_size m div (max s t * 8) * 8) (drop i u))))
            (max_list (map (\<lambda>ex. length (fst (snd ex)))
               (take (batch_size m div (max s t * 8) * 8) (drop i u)))) = Some r"
  shows "\<exists>r. size_bucket m u i s t = Some r"
proof (cases "0 < max s t")
  case False
  then show ?thesis by (subst size_bucket.simps) simp
next
  case True
  from assms[OF True] obtain r where "size_bucket m u i
            (max_list (map (\<lambda>ex. length (fst ex))
               (take (batch_size m div (max s t * 8) * 8) (drop i u))))
            (max_list (map (\<lambda>ex. length (fst (snd ex)))
               (take (batch_size m div (max s t * 8) * 8) (drop i u)))) = Some r" by blast
  then show ?thesis by (subst size_bucket.simps) (simp add: Let_def)
qed

lemma size_bucket_stable:
  assumes "s = max_list (map (\<lambda>ex. length (fst ex)) (take k (drop i u)))"
    and "t = max_list (map (\<lambda>ex. length (fst (snd ex))) (take k (drop i u)))"
    and "batch_size m div (max s t * 8) * 8 \<le> k"
  shows "\<exists>r. size_bucket m u i s t = Some r"
proof -
  let ?f = "batch_size m div (max s t * 8) * 8"
  have "max_list (map (\<lambda>ex. length (fst ex)) (take ?f (drop i u)))
        \<le> max_list (map (\<lambda>ex. length (fst ex)) (take k (drop i u)))"
    by (rule max_list_take_mono[OF assms(3)])
  then have a: "max_list (map (\<lambda>ex. length (fst ex)) (take ?f (drop i u))) \<le> s"
    by (simp only: assms(1)[symmetric])
  have "max_list (map (\<lambda>ex. length (fst (snd ex))) (take ?f (drop i u)))
        \<le> max_list (map (\<lambda>ex. length (fst (snd ex))) (take k (drop i u)))"
    by (rule max_list_take_mono[OF assms(3)])
  then have b: "max_list (map (\<lambda>ex. length (fst (snd ex))) (take ?f (drop i u))) \<le> t"
    by (simp only: assms(2)[symmetric])
  from a b show ?thesis
    by (subst size_bucket.simps) (simp add: Let_def)
qed

lemma size_bucket_returns: "\<exists>r. size_bucket m u i s t = Some r"
proof (rule size_bucket_unfold)
  let ?g1 = "\<lambda>ex::example. length (fst ex)"
  let ?g2 = "\<lambda>ex::example. length (fst (snd ex))"
  let ?f0 = "batch_size m div (max s t * 8) * 8"
  let ?s1 = "max_list (map ?g1 (take ?f0 (drop i u)))"
  let ?t1 = "max_list (map ?g2 (take ?f0 (drop i u)))"
  let ?f1 = "batch_size m div (max ?s1 ?t1 * 8) * 8"
  let ?s2 = "max_list (map ?g1 (take ?f1 (drop i u)))"
  let ?t2 = "max_list (map ?g2 (take ?f1 (drop i u)))"
  let ?f2 = "batch_size m div (max ?s2 ?t2 * 8) * 8"
  show "\<exists>r. size_bucket m u i ?s1 ?t1 = Some r"
  proof (cases "?f1 \<le> ?f0")
    case True
    show ?thesis by (rule size_bucket_stable[OF refl refl True])
  next
    case False
    then have le: "?f0 \<le> ?f1" by simp
    show ?thesis
    proof (rule size_bucket_unfold)
      assume pos: "0 < max ?s1 ?t1"
      have "?s1 \<le> ?s2" "?t1 \<le> ?t2"
        by (rule max_list_take_mono[OF le])+
      then have "max ?s1 ?t1 \<le> max ?s2 ?t2" by (simp add: max.coboundedI1 max.coboundedI2)
      from bucket_size_antimono[OF pos this] have "?f2 \<le> ?f1" .
      then show "\<exists>r. size_bucket m u i ?s2 ?t2 = Some r"
        by (rule size_bucket_stable[OF refl refl])
    qed
  qed
qed


lemma size_bucket_positive:
  assumes "size_bucket m u i s t = Some r"
  shows "\<forall>bsz slice ms mt. r = Inr (bsz, slice, ms, mt) \<longrightarrow> 0 < bsz"
  using assms
proof (rule size_bucket.raw_induct
    [rotated, where P = "\<lambda>m u i s t r. \<forall>bsz slice ms mt. r = Inr (bsz, slice, ms, mt) \<longrightarrow> 0 < bsz"],
    goal_cases)
  case (1 f m u i s t r)
  let ?bsz = "batch_size m div (max s t * 8) * 8"
  let ?slice = "take ?bsz (drop i u)"
  let ?ms = "max_list (map (\<lambda>ex. length (fst ex)) ?slice)"
  let ?mt = "max_list (map (\<lambda>ex. length (fst (snd ex))) ?slice)"
  consider (zero) "max s t * 8 = 0"
    | (empty) "max s t * 8 \<noteq> 0" "?slice = []"
    | (fit) "max s t * 8 \<noteq> 0" "?slice \<noteq> []" "?ms \<le> s \<and> ?mt \<le> t"
    | (again) "max s t * 8 \<noteq> 0" "?slice \<noteq> []" "\<not> (?ms \<le> s \<and> ?mt \<le> t)"
    by blast
  then show ?case
  proof cases
    case zero
    with 1(2) have "r = Inl ZeroDivisionError" by simp
    then show ?thesis by simp
  next
    case empty
    with 1(2) have "r = Inl ValueError" by (simp add: Let_def split: if_splits)
    then show ?thesis by simp
  next
    case fit
    with 1(2) have "r = Inr (?bsz, ?slice, ?ms, ?mt)"
      by (simp add: Let_def split: if_splits)
    moreover from fit(2) have "0 < ?bsz" by (cases "?bsz = 0") simp_all
    ultimately show ?thesis by simp
  next
    case again
    with 1(2) have "f m u i ?ms ?mt = Some r"
      by (simp add: Let_def split: if_splits)
    from 1(1)[OF this] show ?thesis .
  qed
qed

lemma bucket_loop_returns: "\<exists>r. bucket_loop m u i acc = Some r"
proof (induction "length u - i" arbitrary: m i acc rule: less_induct)
  case less
  show ?case
  proof (cases "i < length u")
    case False
    then show ?thesis by (subst bucket_loop.simps) simp
  next
    case True
    obtain r where sb: "size_bucket m u i (length (fst (u ! i))) (length (fst (snd (u ! i)))) = Some r"
      using size_bucket_returns by blast
    show ?thesis
    proof (cases r)
      case (Inl e)
      with sb True show ?thesis by (subst bucket_loop.simps) simp
    next
      case (Inr x)
      then obtain bsz slice ms mt where x: "r = Inr (bsz, slice, ms, mt)"
        by (cases x) auto
      from size_bucket_positive[OF sb] x have pos: "0 < bsz" by blast
      show ?thesis
      proof (cases "make_batch m slice ms mt")
        case (Inl e)
        with sb x True show ?thesis by (subst bucket_loop.simps) simp
      next
        case mb: (Inr y)
        obtain b m1 where y: "y = (b, m1)" by (cases y)
        from pos True have "length u - (i + bsz) < length u - i" by simp
        from less[OF this] obtain r' where "bucket_loop m1 u (i + bsz) (acc @ [b]) = Some r'"
          by blast
        with sb x True mb y show ?thesis by (subst bucket_loop.simps) simp
      qed
    qed
  qed
qed

lemma batch_data_returns: "\<exists>r. batch_data m data_file = Some r"
  by (cases "collect m data_file []") (simp_all add: batch_data_def bucket_loop_returns)

section \<open>The dictionary mask of a built batch\<close>

lemma ordered_from_lower: "ordered_from lo ss \<Longrightarrow> s \<in> set ss \<Longrightarrow> lo \<le> fst s"
  by (induction ss arbitrary: lo) (auto, fastforce)

lemma ordered_from_snoc:
  "ordered_from lo ss \<Longrightarrow> \<forall>s \<in> set ss. snd s \<le> c \<Longrightarrow> lo \<le> c \<Longrightarrow> c \<le> d \<Longrightarrow>
   ordered_from lo (ss @ [(c, d)])"
  by (induction ss arbitrary: lo) auto

lemma ordered_from_take: "ordered_from lo ss \<Longrightarrow> ordered_from lo (take k ss)"
  by (induction ss arbitrary: lo k) (auto simp: take_Cons split: nat.splits)

lemma map_snd_zip_prefix: "map snd (zip xs ys) = take (length xs) ys"
  by (induction xs arbitrary: ys) (auto simp: take_Cons' split: list.splits, (case_tac ys; simp)+)

lemma square_set_block: "square n M \<Longrightarrow> square n (set_block x rs cs M)"
  by (simp add: square_def set_block_length set_block_row_length)

lemma square_write0: "square n M \<Longrightarrow> square n (write0 n p M)"
  by (simp add: write0_def square_set_block)

lemma square_write1: "square n M \<Longrightarrow> square n (write1 n p M)"
  by (simp add: write1_def square_set_block)

lemma set_block_entry:
  "square n M \<Longrightarrow> r < n \<Longrightarrow> c < n \<Longrightarrow>
   set_block x rs cs M ! r ! c = (if in_span rs r \<and> in_span cs c then x else M ! r ! c)"
  by (simp add: square_def set_block_nth in_span_def)

lemma write0_entry:
  assumes "square n M" and "r < n" and "c < n"
  shows "write0 n p M ! r ! c
     = (if in_span (snd p) c then (if in_span (fst p) r then 0 else 1) else M ! r ! c)"
proof -
  have sq: "square n (set_block 1 (0, n) (snd p) M)"
    using assms(1) by (rule square_set_block)
  have full: "in_span (0, n) r" using assms(2) by (simp add: in_span_def)
  show ?thesis
    unfolding write0_def
    by (simp add: set_block_entry[OF sq assms(2,3)] set_block_entry[OF assms] full)
qed

lemma write1_entry:
  assumes "square n M" and "r < n" and "c < n"
  shows "write1 n p M ! r ! c
     = (if in_span (snd p) r then (if in_span (snd p) c then 0 else 1) else M ! r ! c)"
proof -
  have sq: "square n (set_block 1 (snd p) (0, n) M)"
    using assms(1) by (rule square_set_block)
  have full: "in_span (0, n) c" using assms(3) by (simp add: in_span_def)
  show ?thesis
    unfolding write1_def
    by (simp add: set_block_entry[OF sq assms(2,3)] set_block_entry[OF assms] full)
qed

lemma square_fold_write0: "square n M \<Longrightarrow> square n (fold (write0 n) ps M)"
  by (induction ps arbitrary: M) (auto simp: square_write0)

lemma square_fold_write1: "square n M \<Longrightarrow> square n (fold (write1 n) ps M)"
  by (induction ps arbitrary: M) (auto simp: square_write1)

lemma ordered_disjoint:
  assumes "ordered_from lo (s # ss)" and "s' \<in> set ss" and "in_span s k"
  shows "\<not> in_span s' k"
proof -
  from assms(1) have "ordered_from (snd s) ss" by simp
  from ordered_from_lower[OF this assms(2)] assms(3) show ?thesis
    by (simp add: in_span_def)
qed

lemma fold_write0_entry:
  assumes "square n M" and "r < n" and "c < n" and "ordered_from lo (map snd ps)"
  shows "fold (write0 n) ps M ! r ! c
         = (if \<exists>p \<in> set ps. in_span (snd p) c then lemma_layer ps r c else M ! r ! c)"
  using assms
proof (induction ps arbitrary: M lo)
  case Nil
  then show ?case by simp
next
  case (Cons p ps)
  have sq: "square n (write0 n p M)" using Cons.prems(1) by (rule square_write0)
  have ord: "ordered_from (snd (snd p)) (map snd ps)" using Cons.prems(4) by simp
  have disj: "\<not> in_span (snd q) c" if "q \<in> set ps" "in_span (snd p) c" for q
    using ordered_disjoint[OF Cons.prems(4)[simplified list.map], of "snd q" c] that by simp
  have "fold (write0 n) (p # ps) M ! r ! c = fold (write0 n) ps (write0 n p M) ! r ! c"
    by simp
  also have "\<dots> = (if \<exists>q \<in> set ps. in_span (snd q) c then lemma_layer ps r c
                      else write0 n p M ! r ! c)"
    by (rule Cons.IH[OF sq Cons.prems(2,3) ord])
  also have "\<dots> = (if \<exists>q \<in> set (p # ps). in_span (snd q) c then lemma_layer (p # ps) r c
                      else M ! r ! c)"
    using disj
    by (auto simp: write0_entry[OF Cons.prems(1-3)] lemma_layer_def split: prod.splits)
  finally show ?case .
qed

lemma fold_write1_entry:
  assumes "square n M" and "r < n" and "c < n" and "ordered_from lo (map snd ps)"
  shows "fold (write1 n) ps M ! r ! c
         = (if \<exists>p \<in> set ps. in_span (snd p) r then sense_layer ps r c else M ! r ! c)"
  using assms
proof (induction ps arbitrary: M lo)
  case Nil
  then show ?case by simp
next
  case (Cons p ps)
  have sq: "square n (write1 n p M)" using Cons.prems(1) by (rule square_write1)
  have ord: "ordered_from (snd (snd p)) (map snd ps)" using Cons.prems(4) by simp
  have disj: "\<not> in_span (snd q) r" if "q \<in> set ps" "in_span (snd p) r" for q
    using ordered_disjoint[OF Cons.prems(4)[simplified list.map], of "snd q" r] that by simp
  have "fold (write1 n) (p # ps) M ! r ! c = fold (write1 n) ps (write1 n p M) ! r ! c"
    by simp
  also have "\<dots> = (if \<exists>q \<in> set ps. in_span (snd q) r then sense_layer ps r c
                      else write1 n p M ! r ! c)"
    by (rule Cons.IH[OF sq Cons.prems(2,3) ord])
  also have "\<dots> = (if \<exists>q \<in> set (p # ps). in_span (snd q) r then sense_layer (p # ps) r c
                      else M ! r ! c)"
    using disj
    by (auto simp: write1_entry[OF Cons.prems(1-3)] sense_layer_def split: prod.splits)
  finally show ?case .
qed

lemma zero_square: "square n (replicate n (replicate n (0::rat)))"
  by (simp add: square_def)

lemma fold_write0_zero:
  assumes "r < n" and "c < n" and "ordered_from lo (map snd ps)"
  shows "fold (write0 n) ps (replicate n (replicate n 0)) ! r ! c = lemma_layer ps r c"
  using fold_write0_entry[OF zero_square assms] assms(1,2)
  by (auto simp: lemma_layer_def)

lemma fold_write1_zero:
  assumes "r < n" and "c < n" and "ordered_from lo (map snd ps)"
  shows "fold (write1 n) ps (replicate n (replicate n 0)) ! r ! c = sense_layer ps r c"
  using fold_write1_entry[OF zero_square assms] assms(1,2)
  by (auto simp: sense_layer_def)

lemma write_pair_layers:
  "i < length L0 \<Longrightarrow> i < length L1 \<Longrightarrow>
   write_pair n i [L0, L1] p = Inr [L0[i := write0 n p (L0 ! i)], L1[i := write1 n p (L1 ! i)] ]"
  by (cases p) (simp add: write_pair_def assign_block_def index_list_def write0_def write1_def)

lemma write_pairs_layers:
  "i < length L0 \<Longrightarrow> i < length L1 \<Longrightarrow>
   write_pairs n i [L0, L1] ps
     = Inr [L0[i := fold (write0 n) ps (L0 ! i)], L1[i := fold (write1 n) ps (L1 ! i)] ]"
  by (induction ps arbitrary: L0 L1) (simp_all add: write_pair_layers)

lemma write_examples_layers:
  assumes "i0 + length exs \<le> length L0" and "length L1 = length L0"
  shows "\<exists>L0' L1'. write_examples n i0 [L0, L1] exs = Inr [L0', L1']
           \<and> length L0' = length L0 \<and> length L1' = length L0
           \<and> (\<forall>j < length L0.
                 L0' ! j = (if i0 \<le> j \<and> j < i0 + length exs
                            then fold (write0 n) (pairs_of (exs ! (j - i0))) (L0 ! j) else L0 ! j)
               \<and> L1' ! j = (if i0 \<le> j \<and> j < i0 + length exs
                            then fold (write1 n) (pairs_of (exs ! (j - i0))) (L1 ! j) else L1 ! j))"
  using assms
proof (induction exs arbitrary: i0 L0 L1)
  case Nil
  then show ?case by auto
next
  case (Cons ex exs)
  obtain ls ss where ex: "ex = (ls, ss)" by (cases ex)
  let ?A = "L0[i0 := fold (write0 n) (zip ls ss) (L0 ! i0)]"
  let ?B = "L1[i0 := fold (write1 n) (zip ls ss) (L1 ! i0)]"
  have i0: "i0 < length L0" "i0 < length L1" using Cons.prems by simp_all
  have wp: "write_pairs n i0 [L0, L1] (zip ls ss) = Inr [?A, ?B]"
    by (rule write_pairs_layers[OF i0])
  have "Suc i0 + length exs \<le> length ?A" "length ?B = length ?A"
    using Cons.prems by simp_all
  from Cons.IH[OF this] obtain L0' L1' where
    we: "write_examples n (Suc i0) [?A, ?B] exs = Inr [L0', L1']"
    and len: "length L0' = length L0" "length L1' = length L0"
    and ent: "\<forall>j < length L0.
                 L0' ! j = (if Suc i0 \<le> j \<and> j < Suc i0 + length exs
                            then fold (write0 n) (pairs_of (exs ! (j - Suc i0))) (?A ! j) else ?A ! j)
               \<and> L1' ! j = (if Suc i0 \<le> j \<and> j < Suc i0 + length exs
                            then fold (write1 n) (pairs_of (exs ! (j - Suc i0))) (?B ! j) else ?B ! j)"
    by auto
  have run: "write_examples n i0 [L0, L1] (ex # exs) = Inr [L0', L1']"
    by (simp add: ex wp we)
  have "L0' ! j = (if i0 \<le> j \<and> j < i0 + length (ex # exs)
                            then fold (write0 n) (pairs_of ((ex # exs) ! (j - i0))) (L0 ! j) else L0 ! j)
      \<and> L1' ! j = (if i0 \<le> j \<and> j < i0 + length (ex # exs)
                            then fold (write1 n) (pairs_of ((ex # exs) ! (j - i0))) (L1 ! j) else L1 ! j)"
    if j: "j < length L0" for j
  proof (cases "j = i0")
    case True
    with ent j i0 show ?thesis by (simp add: ex pairs_of_def)
  next
    case False
    then have "(ex # exs) ! (j - i0) = exs ! (j - Suc i0)" if "i0 \<le> j"
      using that by (simp add: nth_Cons' Suc_diff_Suc)
    with False ent j show ?thesis by auto
  qed
  with run len show ?case by blast
qed

lemma scan_ordered:
  "scan m src_len i ws ls ss = Inr (ws', ls', ss') \<Longrightarrow>
   ordered_from 0 ss \<Longrightarrow> \<forall>s \<in> set ss. snd s \<le> length ws \<Longrightarrow>
   ordered_from 0 ss'"
proof (induction m src_len i ws ls ss rule: scan.induct)
  case (1 m src_len i ws ls ss)
  show ?case
  proof (cases "i < src_len")
    case False
    with "1.prems" show ?thesis by (subst (asm) scan.simps) simp
  next
    case True
    from "1.prems"(1) True obtain i' lem where rl: "read_lemma ws src_len i = Inr (i', lem)"
      by (subst (asm) scan.simps) (auto split: sum.splits)
    show ?thesis
    proof (cases "freq m lem \<noteq> None \<and> dict m lem \<noteq> None")
      case no: False
      with "1.prems"(1) True rl have "scan m src_len (Suc i') ws ls ss = Inr (ws', ls', ss')"
        by (subst (asm) scan.simps) (auto split: sum.splits)
      from "1.IH"(3)[OF True rl refl no this "1.prems"(2,3)] show ?thesis .
    next
      case yes: True
      then obtain f entry where f: "freq m lem = Some f" and d: "dict m lem = Some entry"
        by auto
      show ?thesis
      proof (cases "f \<le> freq_limit m")
        case False
        with "1.prems"(1) True rl yes f
        have "scan m src_len (Suc i') ws ls ss = Inr (ws', ls', ss')"
          by (subst (asm) scan.simps) (auto simp: getitem_def split: sum.splits)
        from "1.IH"(2)[OF True rl refl yes _ False this "1.prems"(2,3)] f show ?thesis
          by (simp add: getitem_def)
      next
        case le: True
        let ?sense = "take (max_senses m) entry"
        let ?senses = "ss @ [(length ws, length ws + length ?sense)]"
        show ?thesis
        proof (cases "max_length m < length ws + length ?sense")
          case True
          with "1.prems"(1) \<open>i < src_len\<close> rl yes f d le have "ss' = ss"
            by (subst (asm) scan.simps) (auto simp: getitem_def Let_def split: sum.splits)
          with "1.prems"(2) show ?thesis by simp
        next
          case False
          with "1.prems"(1) \<open>i < src_len\<close> rl yes f d le
          have run: "scan m src_len (Suc i') (ws @ ?sense) (ls @ [(i, i' + 1)]) ?senses
                     = Inr (ws', ls', ss')"
            by (subst (asm) scan.simps) (auto simp: getitem_def Let_def split: sum.splits)
          have o: "ordered_from 0 ?senses"
            using "1.prems"(2,3) by (simp add: ordered_from_snoc)
          have b: "\<forall>s \<in> set ?senses. snd s \<le> length (ws @ ?sense)"
            using "1.prems"(3) by auto
          show ?thesis
            by (rule "1.IH"(1)[OF \<open>i < src_len\<close> rl refl yes _ le _ refl refl refl refl refl False run o b])
              (simp_all add: getitem_def f d)
        qed
      qed
    qed
  qed
qed

lemma process_line_ordered:
  "process_line m line = Inr (Some ex) \<Longrightarrow> ordered_example ex"
  by (auto simp: process_line_def ordered_example_def Let_def
      split: list.splits if_splits sum.splits dest!: scan_ordered)

lemma collect_ordered:
  "collect m data_file acc = Inr u \<Longrightarrow> \<forall>ex \<in> set acc. ordered_example ex \<Longrightarrow>
   \<forall>ex \<in> set u. ordered_example ex"
proof (induction data_file arbitrary: acc)
  case Nil
  then show ?case by simp
next
  case (Cons line rest)
  show ?case
  proof (cases "process_line m line")
    case (Inl e)
    with Cons.prems show ?thesis by simp
  next
    case (Inr r)
    show ?thesis
    proof (cases r)
      case None
      with Inr Cons.prems Cons.IH[of acc] show ?thesis by simp
    next
      case (Some ex)
      with Inr have "ordered_example ex" by (simp add: process_line_ordered)
      with Some Inr Cons.prems Cons.IH[of "acc @ [ex]"] show ?thesis by simp
    qed
  qed
qed

lemma set_insert_example: "set (insert_example x ys) = insert x (set ys)"
  by (induction ys) auto

lemma set_sort_examples: "set (sort_examples xs) = set xs"
proof -
  have "set (fold insert_example xs acc) = set xs \<union> set acc" for acc
    by (induction xs arbitrary: acc) (auto simp: set_insert_example)
  then show ?thesis by (simp add: sort_examples_def)
qed

lemma batch_data_ordered:
  assumes "batch_data m data_file = Some (Inr (batches, m'))" and "b \<in> set batches"
  shows "ordered_batch b"
proof -
  from assms(1) obtain u where c: "collect m data_file [] = Inr u"
    and bl: "bucket_loop m (sort_examples u) 0 [] = Some (Inr (batches, m'))"
    by (auto simp: batch_data_def split: sum.splits)
  from collect_ordered[OF c] have ok: "\<forall>ex \<in> set (sort_examples u). ordered_example ex"
    by (simp add: set_sort_examples)
  have "\<forall>b \<in> set batches. ordered_batch b"
  proof (rule bucket_loop_all[OF bl])
    show "\<forall>b \<in> set []. ordered_batch b" by simp
  next
    fix m slice ms mt b m'
    assume "set slice \<subseteq> set (sort_examples u)" and mb: "make_batch m slice ms mt = Inr (b, m')"
    with ok have "\<forall>ex \<in> set slice. ordered_example ex" by blast
    with make_batch_shape[OF mb] show "ordered_batch b"
      by (auto simp: ordered_batch_def ordered_example_def)
  qed
  with assms(2) show ?thesis by blast
qed

lemma dict_mask_no_ignore: "no_ignore b \<Longrightarrow> dict_mask b = Inl AttributeError"
  by (simp add: dict_mask_def src_mask_def)

lemma dict_mask_exhausted:
  "\<not> no_ignore b \<Longrightarrow> dict_data b = [] \<Longrightarrow>
   dict_mask b = Inr (zeros4 (length (src_nums b)) (width (src_nums b)), b)"
  by (simp add: dict_mask_def src_mask_def no_ignore_def)

lemma dict_mask_first:
  assumes "\<not> no_ignore b" and "ordered_batch b"
  shows "\<exists>M. dict_mask b = Inr (M, b\<lparr>dict_data := []\<rparr>) \<and> length M = 2
           \<and> length (M ! 0) = length (src_nums b) \<and> length (M ! 1) = length (src_nums b)
           \<and> (\<forall>i < length (src_nums b). \<forall>r < width (src_nums b). \<forall>c < width (src_nums b).
                 M ! 0 ! i ! r ! c = lemma_layer (pairs_of (dict_data b ! i)) r c
               \<and> M ! 1 ! i ! r ! c = sense_layer (pairs_of (dict_data b ! i)) r c)"
proof -
  let ?B = "length (src_nums b)"
  let ?n = "width (src_nums b)"
  let ?Z = "replicate ?n (replicate ?n (0::rat))"
  let ?L = "replicate ?B ?Z"
  have len: "length (dict_data b) = ?B" using assms(2) by (simp add: ordered_batch_def)
  have "0 + length (dict_data b) \<le> length ?L" "length ?L = length ?L"
    by (simp_all add: len)
  from write_examples_layers[OF this, of ?n] obtain L0 L1 where
    we: "write_examples ?n 0 [?L, ?L] (dict_data b) = Inr [L0, L1]"
    and ll: "length L0 = ?B" "length L1 = ?B"
    and ent: "\<forall>j < ?B. L0 ! j = fold (write0 ?n) (pairs_of (dict_data b ! j)) ?Z
                     \<and> L1 ! j = fold (write1 ?n) (pairs_of (dict_data b ! j)) ?Z"
    by (auto simp: len)
  have dm: "dict_mask b = Inr ([L0, L1], b\<lparr>dict_data := []\<rparr>)"
    using assms(1) we by (simp add: dict_mask_def src_mask_def zeros4_two)
  have "[L0, L1] ! 0 ! i ! r ! c = lemma_layer (pairs_of (dict_data b ! i)) r c
      \<and> [L0, L1] ! 1 ! i ! r ! c = sense_layer (pairs_of (dict_data b ! i)) r c"
    if "i < ?B" "r < ?n" "c < ?n" for i r c
  proof -
    from that(1) len have "dict_data b ! i \<in> set (dict_data b)" by simp
    with assms(2) have "ordered_from 0 (snd (dict_data b ! i))"
      by (simp add: ordered_batch_def)
    then have o: "ordered_from 0 (map snd (pairs_of (dict_data b ! i)))"
      by (simp add: pairs_of_def map_snd_zip_prefix ordered_from_take)
    from ent that(1) fold_write0_zero[OF that(2,3) o] fold_write1_zero[OF that(2,3) o]
    show ?thesis by simp
  qed
  with dm ll show ?thesis by (intro exI[of _ "[L0, L1]"]) simp
qed

text \<open>
  Claim C7. A Batch built by \<open>batch_data\<close> holds its span data as a one-shot iterator.
  When the first read of \<open>dict_mask\<close> on such a batch yields a mask, that mask has the
  suppression pattern of the recorded pairs: for every example, row and column, layer 0
  is \<open>lemma_layer\<close> and layer 1 is \<open>sense_layer\<close> of the pairs of that example. The read
  leaves no items in the iterator, and a read of the batch as it is left yields the
  all-zero mask and leaves the batch as it is, so every later read yields the all-zero
  mask too.
\<close>

theorem dict_mask_one_shot:
  assumes "batch_data m data_file = Some (Inr (batches, m'))" and "b \<in> set batches"
    and "dict_mask b = Inr (M, b1)"
  shows "(\<forall>i < length (src_nums b). \<forall>r < width (src_nums b). \<forall>c < width (src_nums b).
            M ! 0 ! i ! r ! c = lemma_layer (pairs_of (dict_data b ! i)) r c
          \<and> M ! 1 ! i ! r ! c = sense_layer (pairs_of (dict_data b ! i)) r c)
       \<and> dict_data b1 = []
       \<and> dict_mask b1 = Inr (zeros4 (length (src_nums b)) (width (src_nums b)), b1)"
proof -
  have ob: "ordered_batch b" using assms(1,2) by (rule batch_data_ordered)
  have ni: "\<not> no_ignore b"
    using assms(3) dict_mask_no_ignore[of b] by auto
  from dict_mask_first[OF ni ob] assms(3)
  have ent: "\<forall>i < length (src_nums b). \<forall>r < width (src_nums b). \<forall>c < width (src_nums b).
            M ! 0 ! i ! r ! c = lemma_layer (pairs_of (dict_data b ! i)) r c
          \<and> M ! 1 ! i ! r ! c = sense_layer (pairs_of (dict_data b ! i)) r c"
    and b1: "b1 = b\<lparr>dict_data := []\<rparr>"
    by auto
  have ni1: "\<not> no_ignore b1" using ni by (simp add: b1 no_ignore_def)
  have "dict_mask b1 = Inr (zeros4 (length (src_nums b1)) (width (src_nums b1)), b1)"
    by (rule dict_mask_exhausted[OF ni1]) (simp add: b1)
  with ent show ?thesis by (simp add: b1)
qed

theorem dict_mask_one_shot_witness:
  "\<exists>M b1. dict_mask batch0 = Inr (M, b1)
     \<and> M ! 0 ! 0 ! 0 ! 5 = 1 \<and> M ! 0 ! 0 ! 1 ! 5 = 0 \<and> M ! 1 ! 0 ! 5 ! 0 = 1
     \<and> M ! 1 ! 0 ! 5 ! 6 = 0
     \<and> dict_mask b1 = Inr (zeros4 2 8, b1)"
proof -
  have "case batch_data manager0 data0 of Some (Inr (bs, m)) \<Rightarrow> bs = [batch0] | _ \<Rightarrow> False"
    by code_simp
  then obtain m' where r: "batch_data manager0 data0 = Some (Inr ([batch0], m'))"
    by (auto split: option.splits sum.splits)
  have "case dict_mask batch0 of Inr (M, b1) \<Rightarrow> True | Inl e \<Rightarrow> False"
    by code_simp
  then obtain M b1 where d: "dict_mask batch0 = Inr (M, b1)"
    by (auto split: sum.splits)
  have sz: "length (src_nums batch0) = 2" "width (src_nums batch0) = 8"
    "pairs_of (dict_data batch0 ! 0) = [((1, 3), (5, 7))]"
    by (simp_all add: batch0_def width_def pairs_of_def)
  have v: "lemma_layer [((1, 3), (5, 7))] 0 5 = 1" "lemma_layer [((1, 3), (5, 7))] 1 5 = 0"
    "sense_layer [((1, 3), (5, 7))] 5 0 = 1" "sense_layer [((1, 3), (5, 7))] 5 6 = 0"
    by (simp_all add: lemma_layer_def sense_layer_def in_span_def)
  from dict_mask_one_shot [OF r _ d]
  have "(\<forall>i < 2. \<forall>r < 8. \<forall>c < 8.
            M ! 0 ! i ! r ! c = lemma_layer (pairs_of (dict_data batch0 ! i)) r c
          \<and> M ! 1 ! i ! r ! c = sense_layer (pairs_of (dict_data batch0 ! i)) r c)
       \<and> dict_mask b1 = Inr (zeros4 2 8, b1)"
    by (simp add: sz)
  then have "M ! 0 ! 0 ! 0 ! 5 = 1 \<and> M ! 0 ! 0 ! 1 ! 5 = 0 \<and> M ! 1 ! 0 ! 5 ! 0 = 1
     \<and> M ! 1 ! 0 ! 5 ! 6 = 0 \<and> dict_mask b1 = Inr (zeros4 2 8, b1)"
    using sz(3) v by simp
  with d show ?thesis by blast
qed

section \<open>Padding of a built batch\<close>

lemma numberize_from_unchanged:
  "numberize_from v ws acc = Inr (nums, v') \<Longrightarrow> v' = v"
proof (induction ws arbitrary: acc)
  case Nil
  then show ?case by simp
next
  case (Cons w ws)
  show ?case
  proof (cases "word_to_num v w")
    case (Some n)
    with Cons.prems have "numberize_from v ws (acc @ [n]) = Inr (nums, v')"
      by (simp add: getitem_def)
    then show ?thesis by (rule Cons.IH)
  next
    case None
    with Cons.prems obtain n v1 where u: "UNK v = Inr (n, v1)"
      and r: "numberize_from v1 ws (acc @ [n]) = Inr (nums, v')"
      by (auto simp: getitem_def split: sum.splits)
    from u have "v1 = v" by (simp add: UNK_def control_token_unchanged)
    with r Cons.IH show ?thesis by simp
  qed
qed

lemma numberize_unchanged: "numberize v ws = Inr (nums, v') \<Longrightarrow> v' = v"
  by (auto simp: numberize_def dest: numberize_from_unchanged)

lemma PAD_unchanged: "PAD v = Inr (pad, v') \<Longrightarrow> v' = v"
  by (simp add: PAD_def control_token_unchanged)

lemma UNK_unchanged: "UNK v = Inr (unk, v') \<Longrightarrow> v' = v"
  by (simp add: UNK_def control_token_unchanged)

lemma pad_to_append:
  "length nums = len \<Longrightarrow> len \<le> target \<Longrightarrow>
   pad_to nums target len x = nums @ replicate (target - length nums) x"
  by (simp add: pad_to_def)

lemma pad_rows_rows:
  assumes "pad_rows v target wss = Inr (rows, v')"
  shows "v' = v \<and> length rows = length wss
       \<and> (\<forall>k < length wss. \<exists>nums pad. numberize v (wss ! k) = Inr (nums, v)
              \<and> PAD v = Inr (pad, v)
              \<and> rows ! k = pad_to nums target (length (wss ! k)) pad)"
  using assms
proof (induction wss arbitrary: rows)
  case Nil
  then show ?case by simp
next
  case (Cons ws wss)
  from Cons.prems obtain nums v1 pad v2 rows' where
    n: "numberize v ws = Inr (nums, v1)" and p: "PAD v1 = Inr (pad, v2)"
    and r: "pad_rows v2 target wss = Inr (rows', v')"
    and rows: "rows = pad_to nums target (length ws) pad # rows'"
    by (auto split: sum.splits)
  have v1: "v1 = v" using n by (rule numberize_unchanged)
  have v2: "v2 = v" using p v1 by (auto dest: PAD_unchanged)
  from Cons.IH[OF r[unfolded v2] ] have ih: "v' = v" "length rows' = length wss"
    "\<forall>k < length wss. \<exists>nums pad. numberize v (wss ! k) = Inr (nums, v)
              \<and> PAD v = Inr (pad, v)
              \<and> rows' ! k = pad_to nums target (length (wss ! k)) pad"
    by simp_all
  have "\<exists>nums pad. numberize v ((ws # wss) ! k) = Inr (nums, v) \<and> PAD v = Inr (pad, v)
              \<and> rows ! k = pad_to nums target (length ((ws # wss) ! k)) pad"
    if "k < length (ws # wss)" for k
  proof (cases k)
    case 0
    with n p v1 v2 rows show ?thesis by auto
  next
    case (Suc j)
    with that ih(3) rows show ?thesis by simp
  qed
  with ih(1,2) rows show ?case by simp
qed

lemma ceil8_ge: "n \<le> ceil8 n"
  unfolding ceil8_def by presburger

lemma ceil8_less: "ceil8 n < n + 8"
  unfolding ceil8_def by presburger

lemma max_list_ge: "x \<in> set xs \<Longrightarrow> x \<le> max_list xs"
  by (simp add: max_list_Max)

lemma max_list_in: "xs \<noteq> [] \<Longrightarrow> max_list xs \<in> set xs \<or> max_list xs = 0"
proof -
  assume "xs \<noteq> []"
  have "Max (insert 0 (set xs)) \<in> insert 0 (set xs)"
    by (rule Max_in) simp_all
  then show ?thesis by (auto simp: max_list_Max)
qed

lemma size_bucket_maxima:
  assumes "size_bucket m u i s t = Some r"
  shows "\<forall>bsz slice ms mt. r = Inr (bsz, slice, ms, mt) \<longrightarrow>
           ms = max_list (map (\<lambda>ex. length (fst ex)) slice)
         \<and> mt = max_list (map (\<lambda>ex. length (fst (snd ex))) slice)"
  using assms
proof (rule size_bucket.raw_induct
    [rotated, where P = "\<lambda>m u i s t r. \<forall>bsz slice ms mt. r = Inr (bsz, slice, ms, mt) \<longrightarrow>
           ms = max_list (map (\<lambda>ex. length (fst ex)) slice)
         \<and> mt = max_list (map (\<lambda>ex. length (fst (snd ex))) slice)"], goal_cases)
  case (1 f m u i s t r)
  let ?bsz = "batch_size m div (max s t * 8) * 8"
  let ?slice = "take ?bsz (drop i u)"
  let ?ms = "max_list (map (\<lambda>ex. length (fst ex)) ?slice)"
  let ?mt = "max_list (map (\<lambda>ex. length (fst (snd ex))) ?slice)"
  consider (zero) "max s t * 8 = 0"
    | (empty) "max s t * 8 \<noteq> 0" "?slice = []"
    | (fit) "max s t * 8 \<noteq> 0" "?slice \<noteq> []" "?ms \<le> s \<and> ?mt \<le> t"
    | (again) "max s t * 8 \<noteq> 0" "?slice \<noteq> []" "\<not> (?ms \<le> s \<and> ?mt \<le> t)"
    by blast
  then show ?case
  proof cases
    case zero
    with 1(2) have "r = Inl ZeroDivisionError" by simp
    then show ?thesis by simp
  next
    case empty
    with 1(2) have "r = Inl ValueError" by (simp add: Let_def split: if_splits)
    then show ?thesis by simp
  next
    case fit
    with 1(2) have "r = Inr (?bsz, ?slice, ?ms, ?mt)"
      by (simp add: Let_def split: if_splits)
    then show ?thesis by simp
  next
    case again
    with 1(2) have "f m u i ?ms ?mt = Some r"
      by (simp add: Let_def split: if_splits)
    from 1(1)[OF this] show ?thesis .
  qed
qed

lemma make_batch_unchanged: "make_batch m slice ms mt = Inr (b, m') \<Longrightarrow> m' = m"
proof -
  assume a: "make_batch m slice ms mt = Inr (b, m')"
  then obtain src v1 tgt v2 d unk v3 pad v4 where
    s: "pad_rows (vocab m) (ceil8 ms) (map fst slice) = Inr (src, v1)"
    and t: "pad_rows v1 (ceil8 mt) (map (\<lambda>ex. fst (snd ex)) slice) = Inr (tgt, v2)"
    and u: "UNK v2 = Inr (unk, v3)" and p: "PAD v3 = Inr (pad, v4)"
    and m': "m' = m\<lparr>vocab := v4\<rparr>"
    by (auto simp: make_batch_def split: sum.splits option.splits)
  from pad_rows_rows[OF s] have "v1 = vocab m" by simp
  with pad_rows_rows[OF t] have "v2 = vocab m" by simp
  with u have "v3 = vocab m" by (auto dest: UNK_unchanged)
  with p have "v4 = vocab m" by (auto dest: PAD_unchanged)
  with m' show ?thesis by simp
qed

lemma make_batch_rows:
  assumes mb: "make_batch m slice ms mt = Inr (b, m')"
    and ms: "ms = max_list (map (\<lambda>ex. length (fst ex)) slice)"
    and mt: "mt = max_list (map (\<lambda>ex. length (fst (snd ex))) slice)"
  shows "\<exists>pad unk d.
           PAD (vocab m) = Inr (pad, vocab m) \<and> UNK (vocab m) = Inr (unk, vocab m)
         \<and> size_decoding (vocab m) = Some d \<and> ignore_index b = Some pad
         \<and> (\<forall>k < length slice. \<exists>snums tnums.
               numberize (vocab m) (fst (slice ! k)) = Inr (snums, vocab m)
             \<and> numberize (vocab m) (fst (snd (slice ! k))) = Inr (tnums, vocab m)
             \<and> length snums \<le> ceil8 ms \<and> length tnums \<le> ceil8 mt
             \<and> src_nums b ! k = snums @ replicate (ceil8 ms - length snums) pad
             \<and> tgt_nums b ! k = map (\<lambda>x. if d \<le> int x then unk else x)
                                   (tnums @ replicate (ceil8 mt - length tnums) pad))"
proof -
  from mb obtain src v1 tgt v2 d unk v3 pad v4 where
    s: "pad_rows (vocab m) (ceil8 ms) (map fst slice) = Inr (src, v1)"
    and t: "pad_rows v1 (ceil8 mt) (map (\<lambda>ex. fst (snd ex)) slice) = Inr (tgt, v2)"
    and d: "size_decoding v2 = Some d"
    and u: "UNK v2 = Inr (unk, v3)" and p: "PAD v3 = Inr (pad, v4)"
    and b: "b = \<lparr>src_nums = src,
                tgt_nums = map (map (\<lambda>x. if d \<le> int x then unk else x)) tgt,
                dict_data = map (\<lambda>ex. (fst (snd (snd ex)), snd (snd (snd ex)))) slice,
                ignore_index = Some pad\<rparr>"
    by (auto simp: make_batch_def split: sum.splits option.splits)
  note S = pad_rows_rows[OF s]
  have v1: "v1 = vocab m" using S by simp
  note T = pad_rows_rows[OF t[unfolded v1] ]
  have v2: "v2 = vocab m" using T by simp
  have v3: "v3 = vocab m" using u v2 by (auto dest: UNK_unchanged)
  have v4: "v4 = vocab m" using p v3 by (auto dest: PAD_unchanged)
  have P: "PAD (vocab m) = Inr (pad, vocab m)" using p v3 v4 by simp
  have U: "UNK (vocab m) = Inr (unk, vocab m)" using u v2 v3 by simp
  have D: "size_decoding (vocab m) = Some d" using d v2 by simp
  have rows: "\<exists>snums tnums.
               numberize (vocab m) (fst (slice ! k)) = Inr (snums, vocab m)
             \<and> numberize (vocab m) (fst (snd (slice ! k))) = Inr (tnums, vocab m)
             \<and> length snums \<le> ceil8 ms \<and> length tnums \<le> ceil8 mt
             \<and> src_nums b ! k = snums @ replicate (ceil8 ms - length snums) pad
             \<and> tgt_nums b ! k = map (\<lambda>x. if d \<le> int x then unk else x)
                                   (tnums @ replicate (ceil8 mt - length tnums) pad)"
    if k: "k < length slice" for k
  proof -
    from S k obtain snums where sn: "numberize (vocab m) (fst (slice ! k)) = Inr (snums, vocab m)"
      and sr: "src ! k = pad_to snums (ceil8 ms) (length (fst (slice ! k))) pad"
      using P by fastforce
    from T k obtain tnums where tn: "numberize (vocab m) (fst (snd (slice ! k))) = Inr (tnums, vocab m)"
      and tr: "tgt ! k = pad_to tnums (ceil8 mt) (length (fst (snd (slice ! k)))) pad"
      using P by fastforce
    have ls: "length snums = length (fst (slice ! k))" using sn by (rule numberize_length)
    have lt: "length tnums = length (fst (snd (slice ! k)))" using tn by (rule numberize_length)
    have "length (fst (slice ! k)) \<in> set (map (\<lambda>ex. length (fst ex)) slice)"
      using k by simp
    then have "length (fst (slice ! k)) \<le> ms" unfolding ms by (rule max_list_ge)
    then have sle: "length (fst (slice ! k)) \<le> ceil8 ms"
      using ceil8_ge[of ms] by simp
    have "length (fst (snd (slice ! k))) \<in> set (map (\<lambda>ex. length (fst (snd ex))) slice)"
      using k by simp
    then have "length (fst (snd (slice ! k))) \<le> mt" unfolding mt by (rule max_list_ge)
    then have tle: "length (fst (snd (slice ! k))) \<le> ceil8 mt"
      using ceil8_ge[of mt] by simp
    have lsrc: "length src = length slice" "length tgt = length slice"
      using S T by simp_all
    have "src_nums b ! k = snums @ replicate (ceil8 ms - length snums) pad"
      using sr pad_to_append[OF ls sle] by (simp add: b)
    moreover have "tgt_nums b ! k = map (\<lambda>x. if d \<le> int x then unk else x)
                                   (tnums @ replicate (ceil8 mt - length tnums) pad)"
      using tr pad_to_append[OF lt tle] k lsrc by (simp add: b)
    ultimately show ?thesis using sn tn ls lt sle tle by auto
  qed
  have "ignore_index b = Some pad" by (simp add: b)
  with P U D rows show ?thesis by blast
qed

lemma bucket_loop_fixed:
  assumes run: "bucket_loop m u i acc = Some r"
    and step: "\<And>slice ms mt b m'. slice \<noteq> [] \<Longrightarrow> set slice \<subseteq> set u \<Longrightarrow>
           ms = max_list (map (\<lambda>ex. length (fst ex)) slice) \<Longrightarrow>
           mt = max_list (map (\<lambda>ex. length (fst (snd ex))) slice) \<Longrightarrow>
           make_batch m slice ms mt = Inr (b, m') \<Longrightarrow> P b"
  shows "(\<forall>b \<in> set acc. P b) \<longrightarrow> (\<forall>bs m'. r = Inr (bs, m') \<longrightarrow> (\<forall>b \<in> set bs. P b))"
proof -
  have "m0 = m \<longrightarrow> u0 = u \<longrightarrow> (\<forall>b \<in> set acc. P b)
          \<longrightarrow> (\<forall>bs m'. r = Inr (bs, m') \<longrightarrow> (\<forall>b \<in> set bs. P b))"
    if "bucket_loop m0 u0 i acc = Some r" for m0 u0
    using that
  proof (rule bucket_loop.raw_induct
      [rotated, where P = "\<lambda>m0 u0 i acc r. m0 = m \<longrightarrow> u0 = u \<longrightarrow> (\<forall>b \<in> set acc. P b) \<longrightarrow>
                            (\<forall>bs m'. r = Inr (bs, m') \<longrightarrow> (\<forall>b \<in> set bs. P b))"], goal_cases)
    case (1 f m0 u0 i acc r)
    show ?case
    proof (intro impI allI)
      fix bs m'
      assume m0: "m0 = m" and u0: "u0 = u" and acc: "\<forall>b \<in> set acc. P b"
        and r: "r = Inr (bs, m')"
      show "\<forall>b \<in> set bs. P b"
      proof (cases "i < length u0")
        case False
        with 1(2) r have "bs = acc" by simp
        with acc show ?thesis by simp
      next
        case True
        with 1(2) r obtain bsz slice ms mt b m1 where
          sb: "size_bucket m0 u0 i (length (fst (u0 ! i))) (length (fst (snd (u0 ! i))))
               = Some (Inr (bsz, slice, ms, mt))"
          and mb: "make_batch m0 slice ms mt = Inr (b, m1)"
          and rec: "f m1 u0 (i + bsz) (acc @ [b]) = Some r"
          by (auto split: option.splits sum.splits)
        have m1: "m1 = m" using make_batch_unchanged[OF mb] m0 by simp
        from size_bucket_slice[OF sb] have ne: "slice \<noteq> []" and sub: "set slice \<subseteq> set u0"
          by simp_all
        from size_bucket_maxima[OF sb]
        have mm: "ms = max_list (map (\<lambda>ex. length (fst ex)) slice)"
          "mt = max_list (map (\<lambda>ex. length (fst (snd ex))) slice)"
          by simp_all
        have "P b"
          by (rule step[OF ne sub[unfolded u0] mm mb[unfolded m0] ])
        with acc have "\<forall>b \<in> set (acc @ [b]). P b" by simp
        with 1(1)[OF rec] m1 u0 r show ?thesis by blast
      qed
    qed
  qed
  from this[OF run] show ?thesis by simp
qed

lemma ceil8_near_max:
  assumes "slice \<noteq> []"
  shows "\<exists>ex \<in> set slice. ceil8 (max_list (map g slice)) < g ex + 8"
proof -
  from assms have "map g slice \<noteq> []" by simp
  then have "max_list (map g slice) \<in> set (map g slice) \<or> max_list (map g slice) = 0"
    by (rule max_list_in)
  then show ?thesis
  proof (elim disjE)
    assume "max_list (map g slice) \<in> set (map g slice)"
    then obtain ex where ex: "ex \<in> set slice" "g ex = max_list (map g slice)" by auto
    have "ceil8 (max_list (map g slice)) < g ex + 8"
      unfolding ex(2) by (rule ceil8_less)
    with ex(1) show ?thesis by blast
  next
    assume zero: "max_list (map g slice) = 0"
    from assms obtain ex where "ex \<in> set slice" by (cases slice) auto
    with zero show ?thesis by (auto simp: ceil8_def)
  qed
qed

text \<open>
  Claim C9. Every batch that \<open>batch_data\<close> returns is built from a non-empty group of
  the examples collected from the data file, one row per example in both tensors. Its
  source length and its target length are multiples of 8, each less than 8 above the
  longest source (target) sequence of the group. Every source row is the ids of its
  sequence, all kept and in order, followed by the id of \<open><PAD>\<close> up to the source
  length; every target row is the ids of its sequence followed by the id of \<open><PAD>\<close> up
  to the target length, with the clamp of line 311 (ids at or above the decoding size
  become the id of \<open><UNK>\<close>) applied to the whole row. So every row has exactly the
  shared length, and no sequence is cut.
\<close>

theorem padded_lengths:
  assumes "batch_data m data_file = Some (Inr (batches, m'))" and "b \<in> set batches"
  shows "\<exists>unbatched slice Ls Lt pad unk d.
           collect m data_file [] = Inr unbatched \<and> slice \<noteq> [] \<and> set slice \<subseteq> set unbatched
         \<and> Ls mod 8 = 0 \<and> Lt mod 8 = 0
         \<and> (\<exists>ex \<in> set slice. Ls < length (fst ex) + 8)
         \<and> (\<exists>ex \<in> set slice. Lt < length (fst (snd ex)) + 8)
         \<and> PAD (vocab m) = Inr (pad, vocab m) \<and> UNK (vocab m) = Inr (unk, vocab m)
         \<and> size_decoding (vocab m) = Some d \<and> ignore_index b = Some pad
         \<and> src_nums b \<noteq> [] \<and> length (tgt_nums b) = length (src_nums b)
         \<and> length (src_nums b) = length slice
         \<and> (\<forall>row \<in> set (src_nums b). length row = Ls)
         \<and> (\<forall>row \<in> set (tgt_nums b). length row = Lt)
         \<and> (\<forall>k < length slice. \<exists>snums tnums.
               numberize (vocab m) (fst (slice ! k)) = Inr (snums, vocab m)
             \<and> numberize (vocab m) (fst (snd (slice ! k))) = Inr (tnums, vocab m)
             \<and> length snums \<le> Ls \<and> length tnums \<le> Lt
             \<and> src_nums b ! k = snums @ replicate (Ls - length snums) pad
             \<and> tgt_nums b ! k = map (\<lambda>x. if d \<le> int x then unk else x)
                                   (tnums @ replicate (Lt - length tnums) pad))"
proof -
  from assms(1) obtain u where c: "collect m data_file [] = Inr u"
    and bl: "bucket_loop m (sort_examples u) 0 [] = Some (Inr (batches, m'))"
    by (auto simp: batch_data_def split: sum.splits)
  let ?P = "\<lambda>b. \<exists>slice Ls Lt pad unk d.
           collect m data_file [] = Inr u \<and> slice \<noteq> [] \<and> set slice \<subseteq> set u
         \<and> Ls mod 8 = 0 \<and> Lt mod 8 = 0
         \<and> (\<exists>ex \<in> set slice. Ls < length (fst ex) + 8)
         \<and> (\<exists>ex \<in> set slice. Lt < length (fst (snd ex)) + 8)
         \<and> PAD (vocab m) = Inr (pad, vocab m) \<and> UNK (vocab m) = Inr (unk, vocab m)
         \<and> size_decoding (vocab m) = Some d \<and> ignore_index b = Some pad
         \<and> src_nums b \<noteq> [] \<and> length (tgt_nums b) = length (src_nums b)
         \<and> length (src_nums b) = length slice
         \<and> (\<forall>row \<in> set (src_nums b). length row = Ls)
         \<and> (\<forall>row \<in> set (tgt_nums b). length row = Lt)
         \<and> (\<forall>k < length slice. \<exists>snums tnums.
               numberize (vocab m) (fst (slice ! k)) = Inr (snums, vocab m)
             \<and> numberize (vocab m) (fst (snd (slice ! k))) = Inr (tnums, vocab m)
             \<and> length snums \<le> Ls \<and> length tnums \<le> Lt
             \<and> src_nums b ! k = snums @ replicate (Ls - length snums) pad
             \<and> tgt_nums b ! k = map (\<lambda>x. if d \<le> int x then unk else x)
                                   (tnums @ replicate (Lt - length tnums) pad))"
  have step: "?P b"
    if ne: "slice \<noteq> []" and sub: "set slice \<subseteq> set (sort_examples u)"
      and ms: "ms = max_list (map (\<lambda>ex. length (fst ex)) slice)"
      and mt: "mt = max_list (map (\<lambda>ex. length (fst (snd ex))) slice)"
      and mb: "make_batch m slice ms mt = Inr (b, m1)"
    for slice ms mt b m1
  proof -
    from make_batch_rows[OF mb ms mt] obtain pad unk d where
      r: "PAD (vocab m) = Inr (pad, vocab m)" "UNK (vocab m) = Inr (unk, vocab m)"
        "size_decoding (vocab m) = Some d" "ignore_index b = Some pad"
        "\<forall>k < length slice. \<exists>snums tnums.
               numberize (vocab m) (fst (slice ! k)) = Inr (snums, vocab m)
             \<and> numberize (vocab m) (fst (snd (slice ! k))) = Inr (tnums, vocab m)
             \<and> length snums \<le> ceil8 ms \<and> length tnums \<le> ceil8 mt
             \<and> src_nums b ! k = snums @ replicate (ceil8 ms - length snums) pad
             \<and> tgt_nums b ! k = map (\<lambda>x. if d \<le> int x then unk else x)
                                   (tnums @ replicate (ceil8 mt - length tnums) pad)"
      by blast
    from make_batch_shape[OF mb] have sh:
      "length (src_nums b) = length slice" "length (tgt_nums b) = length slice"
      "\<forall>row \<in> set (src_nums b). length row = ceil8 ms"
      "\<forall>row \<in> set (tgt_nums b). length row = ceil8 mt"
      by simp_all
    have n1: "\<exists>ex \<in> set slice. ceil8 ms < length (fst ex) + 8"
      unfolding ms by (rule ceil8_near_max[OF ne])
    have n2: "\<exists>ex \<in> set slice. ceil8 mt < length (fst (snd ex)) + 8"
      unfolding mt by (rule ceil8_near_max[OF ne])
    have s1: "set slice \<subseteq> set u" using sub by (simp add: set_sort_examples)
    have s2: "src_nums b \<noteq> []" using sh(1) ne by auto
    have s3: "length (tgt_nums b) = length (src_nums b)" using sh(1,2) by simp
    show ?thesis
      apply (rule exI[of _ slice], rule exI[of _ "ceil8 ms"], rule exI[of _ "ceil8 mt"])
      apply (rule exI[of _ pad], rule exI[of _ unk], rule exI[of _ d])
      apply (intro conjI)
      using c ne s1 n1 n2 r s2 s3 sh by (simp_all add: ceil8_mod)
  qed
  note all = bucket_loop_fixed[where P = ?P, OF bl step]
  have "?P b" using all assms(2) by simp
  then show ?thesis by (rule exI[of _ u])
qed

theorem padded_lengths_witness:
  "\<exists>unbatched slice Ls Lt pad unk d.
           collect manager0 data0 [] = Inr unbatched \<and> slice \<noteq> [] \<and> set slice \<subseteq> set unbatched
         \<and> Ls mod 8 = 0 \<and> Lt mod 8 = 0
         \<and> (\<exists>ex \<in> set slice. Ls < length (fst ex) + 8)
         \<and> (\<exists>ex \<in> set slice. Lt < length (fst (snd ex)) + 8)
         \<and> PAD (vocab manager0) = Inr (pad, vocab manager0)
         \<and> UNK (vocab manager0) = Inr (unk, vocab manager0)
         \<and> size_decoding (vocab manager0) = Some d \<and> ignore_index batch0 = Some pad
         \<and> src_nums batch0 \<noteq> [] \<and> length (tgt_nums batch0) = length (src_nums batch0)
         \<and> length (src_nums batch0) = length slice
         \<and> (\<forall>row \<in> set (src_nums batch0). length row = Ls)
         \<and> (\<forall>row \<in> set (tgt_nums batch0). length row = Lt)
         \<and> (\<forall>k < length slice. \<exists>snums tnums.
               numberize (vocab manager0) (fst (slice ! k)) = Inr (snums, vocab manager0)
             \<and> numberize (vocab manager0) (fst (snd (slice ! k))) = Inr (tnums, vocab manager0)
             \<and> length snums \<le> Ls \<and> length tnums \<le> Lt
             \<and> src_nums batch0 ! k = snums @ replicate (Ls - length snums) pad
             \<and> tgt_nums batch0 ! k = map (\<lambda>x. if d \<le> int x then unk else x)
                                   (tnums @ replicate (Lt - length tnums) pad))"
proof -
  have "case batch_data manager0 data0 of Some (Inr (bs, m)) \<Rightarrow> bs = [batch0] | _ \<Rightarrow> False"
    by code_simp
  then obtain m' where r: "batch_data manager0 data0 = Some (Inr ([batch0], m'))"
    by (auto split: option.splits sum.splits)
  have mem: "batch0 \<in> set [batch0]" by simp
  show ?thesis
    by (rule padded_lengths [OF r mem])
qed

end
